theory Spec2Isabelle
  imports Complex_Main "HOL-Library.Sublist"
begin

section \<open>Python strings\<close>

text \<open>
  A Python \<open>str\<close> is a \<open>string\<close>: one \<open>char\<close> per code point, for the code points
  U+0000 to U+00FF. In that range the decimal digits of \<open>\d\<close> are \<open>0\<close> to \<open>9\<close>, and the
  white space of \<open>\s\<close>, \<open>str.strip\<close> and \<open>str.rstrip\<close> is the set below.
\<close>

definition is_digit :: "char \<Rightarrow> bool" where
  "is_digit c = (c \<in> set ''0123456789'')"

definition is_space :: "char \<Rightarrow> bool" where
  "is_space c = (c \<in> set [CHR 0x09, CHR 0x0A, CHR 0x0B, CHR 0x0C, CHR 0x0D,
                            CHR 0x1C, CHR 0x1D, CHR 0x1E, CHR 0x1F, CHR 0x20,
                            CHR 0x85, CHR 0xA0])"

definition not_newline :: "char \<Rightarrow> bool" where
  "not_newline c = (c \<noteq> CHR 0x0A)"

definition is_chr :: "char \<Rightarrow> char \<Rightarrow> bool" where
  "is_chr a c = (c = a)"

definition rstrip :: "string \<Rightarrow> string" where
  "rstrip s = rev (dropWhile is_space (rev s))"

definition strip :: "string \<Rightarrow> string" where
  "strip s = dropWhile is_space (rstrip s)"

text \<open>\<open>sub in s\<close>: the substring test.\<close>

fun contains :: "string \<Rightarrow> string \<Rightarrow> bool" where
  "contains sub [] = (sub = [])"
| "contains sub (c # cs) = (prefix sub (c # cs) \<or> contains sub cs)"

text \<open>\<open>s.replace(a, b)\<close> for one-character \<open>a\<close> and \<open>b\<close>, and \<open>s.replace(a, '')\<close>.\<close>

definition replace_chr :: "char \<Rightarrow> char \<Rightarrow> string \<Rightarrow> string" where
  "replace_chr a b s = map (\<lambda>c. if c = a then b else c) s"

definition remove_chr :: "char \<Rightarrow> string \<Rightarrow> string" where
  "remove_chr a s = filter (\<lambda>c. c \<noteq> a) s"

text \<open>The text between two positions of a string, each given by the suffix that starts there.\<close>

definition between :: "string \<Rightarrow> string \<Rightarrow> string" where
  "between s s' = take (length s - length s') s"

section \<open>Exceptions\<close>

datatype py_error = FileNotFoundError | ValueError | AttributeError | ExternalError

definition bind_err :: "py_error + 'a \<Rightarrow> ('a \<Rightarrow> py_error + 'b) \<Rightarrow> py_error + 'b" where
  "bind_err x f = (case x of Inl e \<Rightarrow> Inl e | Inr v \<Rightarrow> f v)"

section \<open>Decimal numerals\<close>

text \<open>The value of a digit is its place in the row of the ten digits.\<close>

definition digit_val :: "char \<Rightarrow> nat" where
  "digit_val c = length (takeWhile (\<lambda>d. d \<noteq> c) ''0123456789'')"

definition digits_val :: "string \<Rightarrow> nat" where
  "digits_val ds = foldl (\<lambda>n c. 10 * n + digit_val c) 0 ds"

text \<open>
  \<open>float(s)\<close> on the plain decimal syntax: an optional sign, digits, and optionally a point
  and digits, with a digit on at least one side of the point. The value is kept exact, as a
  rational; Python rounds it to the nearest double, which is also what a decimal literal of
  the same digits denotes. \<open>None\<close> is the \<open>ValueError\<close> of \<open>float\<close>. (Exponents, \<open>inf\<close>,
  \<open>nan\<close>, underscores and surrounding blanks, which \<open>float\<close> accepts too, are outside this
  syntax; no string the classifier passes to \<open>float\<close> has them, see \<open>amount_token\<close>.)
\<close>

definition py_float :: "string \<Rightarrow> rat option" where
  "py_float s =
     (let signed = (s \<noteq> [] \<and> (hd s = CHR ''-'' \<or> hd s = CHR ''+''));
          sgn = (if s \<noteq> [] \<and> hd s = CHR ''-'' then - 1 else 1);
          body = (if signed then tl s else s);
          ip = takeWhile is_digit body;
          rest = dropWhile is_digit body
      in case rest of
           [] \<Rightarrow> if ip = [] then None else Some (sgn * of_nat (digits_val ip))
         | c # fp \<Rightarrow>
             if c = CHR ''.'' \<and> list_all is_digit fp \<and> \<not> (ip = [] \<and> fp = [])
             then Some (sgn * (of_nat (digits_val ip) + of_nat (digits_val fp) / 10 ^ length fp))
             else None)"

section \<open>Regular expressions, matched by backtracking\<close>

text \<open>
  The patterns of the program use character classes, sequence, the greedy operators
  \<open>?\<close>, \<open>*\<close>, \<open>+\<close>, \<open>{n}\<close>, \<open>{n,}\<close> and the lazy \<open>+?\<close>. \<open>Alt a b\<close> prefers \<open>a\<close>; \<open>Star\<close> prefers
  one more iteration, \<open>LStar\<close> prefers to stop.
\<close>

datatype rx = Sym "char \<Rightarrow> bool" | Eps | Seq rx rx | Alt rx rx | Star rx | LStar rx

text \<open>
  \<open>bt r s k\<close> matches \<open>r\<close> at the start of \<open>s\<close> and hands the rest of the string to the
  continuation \<open>k\<close>; when \<open>k\<close> fails the matcher backtracks into \<open>r\<close>, in the order of
  preference of Python's \<open>re\<close>. An iteration of a star that consumes nothing is not
  repeated.
\<close>

function bt :: "rx \<Rightarrow> string \<Rightarrow> (string \<Rightarrow> 'a option) \<Rightarrow> 'a option" where
  "bt (Sym P) s k = (case s of [] \<Rightarrow> None | c # cs \<Rightarrow> if P c then k cs else None)"
| "bt Eps s k = k s"
| "bt (Seq a b) s k = bt a s (\<lambda>s'. bt b s' k)"
| "bt (Alt a b) s k = (case bt a s k of Some x \<Rightarrow> Some x | None \<Rightarrow> bt b s k)"
| "bt (Star a) s k =
     (case bt a s (\<lambda>s'. if length s' < length s then bt (Star a) s' k else None) of
        Some x \<Rightarrow> Some x
      | None \<Rightarrow> k s)"
| "bt (LStar a) s k =
     (case k s of
        Some x \<Rightarrow> Some x
      | None \<Rightarrow> bt a s (\<lambda>s'. if length s' < length s then bt (LStar a) s' k else None))"
  by pat_completeness auto
termination
  by (relation "measures [\<lambda>(r, s, k). size r, \<lambda>(r, s, k). length s]") auto

definition Opt :: "rx \<Rightarrow> rx" where
  "Opt r = Alt r Eps"

definition Plus :: "rx \<Rightarrow> rx" where
  "Plus r = Seq r (Star r)"

definition LPlus :: "rx \<Rightarrow> rx" where
  "LPlus r = Seq r (LStar r)"

fun Rep :: "nat \<Rightarrow> rx \<Rightarrow> rx" where
  "Rep 0 r = Eps"
| "Rep (Suc n) r = Seq r (Rep n r)"

fun Lit :: "string \<Rightarrow> rx" where
  "Lit [] = Eps"
| "Lit (c # cs) = Seq (Sym (is_chr c)) (Lit cs)"

section \<open>The language of a pattern\<close>

inductive_set star :: "string set \<Rightarrow> string set" for A :: "string set" where
  star_nil: "[] \<in> star A"
| star_step: "u \<in> A \<Longrightarrow> v \<in> star A \<Longrightarrow> u @ v \<in> star A"

fun lang :: "rx \<Rightarrow> string set" where
  "lang (Sym P) = {[c] | c. P c}"
| "lang Eps = {[]}"
| "lang (Seq a b) = {u @ v | u v. u \<in> lang a \<and> v \<in> lang b}"
| "lang (Alt a b) = lang a \<union> lang b"
| "lang (Star a) = star (lang a)"
| "lang (LStar a) = star (lang a)"

section \<open>The numeric token\<close>

text \<open>\<open>num_pattern = -?\d+(?:\.\d{3})*(?:,\d{2})\<close>\<close>

definition num_pattern :: rx where
  "num_pattern =
     Seq (Opt (Sym (is_chr CHR ''-'')))
       (Seq (Plus (Sym is_digit))
         (Seq (Star (Seq (Sym (is_chr CHR ''.'')) (Rep 3 (Sym is_digit))))
           (Seq (Sym (is_chr CHR '','')) (Rep 2 (Sym is_digit)))))"

text \<open>A match of \<open>num_pattern\<close> at the start of \<open>s\<close>: the rest of \<open>s\<close> after the match.\<close>

definition match_num :: "string \<Rightarrow> string option" where
  "match_num s = bt num_pattern s Some"

text \<open>
  \<open>re.findall(num_pattern, s)\<close>: the matches from left to right, none overlapping; the
  scan goes on where the last match ended. (After a match of the empty string, which
  \<open>num_pattern\<close> never has, the scan moves one character on.)
\<close>

function findall_num :: "string \<Rightarrow> string list" where
  "findall_num [] = []"
| "findall_num (c # cs) =
     (case match_num (c # cs) of
        Some rest \<Rightarrow>
          if length rest < length (c # cs) then between (c # cs) rest # findall_num rest
          else [] # findall_num cs
      | None \<Rightarrow> findall_num cs)"
  by pat_completeness auto
termination
  by (relation "measure length") auto

text \<open>\<open>float(tok.replace('.', '').replace(',', '.'))\<close>\<close>

definition normalize :: "string \<Rightarrow> string" where
  "normalize tok = replace_chr CHR '','' CHR ''.'' (remove_chr CHR ''.'' tok)"

definition amount :: "string \<Rightarrow> py_error + rat" where
  "amount tok = (case py_float (normalize tok) of None \<Rightarrow> Inl ValueError | Some v \<Rightarrow> Inr v)"

section \<open>The line classifier\<close>

record txn =
  Fecha :: string
  Codigo :: string
  Descripcion :: string
  Cuotas :: string
  Monto_UYU :: rat
  Monto_USD :: "rat option"
  Tipo :: string

definition Transaccion :: string where
  "Transaccion = ''Transacci'' @ [CHR 0xF3] @ ''n''"

text \<open>\<open>re.search(r'(\d{2})\s+(\d{2})\s+(\d{2})', line)\<close>: the three groups of the leftmost match.\<close>

definition date_at :: "string \<Rightarrow> (string \<times> string \<times> string) option" where
  "date_at s =
     bt (Rep 2 (Sym is_digit)) s (\<lambda>s1.
     bt (Plus (Sym is_space)) s1 (\<lambda>s2.
     bt (Rep 2 (Sym is_digit)) s2 (\<lambda>s3.
     bt (Plus (Sym is_space)) s3 (\<lambda>s4.
     bt (Rep 2 (Sym is_digit)) s4 (\<lambda>s5.
       Some (between s s1, between s2 s3, between s4 s5))))))"

fun date_search :: "string \<Rightarrow> (string \<times> string \<times> string) option" where
  "date_search [] = None"
| "date_search (c # cs) =
     (case date_at (c # cs) of Some g \<Rightarrow> Some g | None \<Rightarrow> date_search cs)"

text \<open>
  \<open>trans_pattern = ^\s*(\d{2})\s+(\d{2})\s+(\d{2})\s+(?P<code>\d{4})?\s+(?P<desc>.+?)(?=\s{4,}num_pattern)\<close>,
  matched at the start of the line. The lookahead is the last continuation: when it fails the
  matcher backtracks into the groups before it.
\<close>

record trans_groups =
  g_day :: string
  g_month :: string
  g_year :: string
  g_code :: string
  g_desc :: string
  g_rest :: string

definition lookahead_amount :: "string \<Rightarrow> bool" where
  "lookahead_amount s =
     (bt (Seq (Rep 4 (Sym is_space)) (Seq (Star (Sym is_space)) num_pattern)) s Some \<noteq> None)"

definition trans_match :: "string \<Rightarrow> trans_groups option" where
  "trans_match s =
     bt (Star (Sym is_space)) s (\<lambda>s1.
     bt (Rep 2 (Sym is_digit)) s1 (\<lambda>s2.
     bt (Plus (Sym is_space)) s2 (\<lambda>s3.
     bt (Rep 2 (Sym is_digit)) s3 (\<lambda>s4.
     bt (Plus (Sym is_space)) s4 (\<lambda>s5.
     bt (Rep 2 (Sym is_digit)) s5 (\<lambda>s6.
     bt (Plus (Sym is_space)) s6 (\<lambda>s7.
     bt (Opt (Rep 4 (Sym is_digit))) s7 (\<lambda>s8.
     bt (Plus (Sym is_space)) s8 (\<lambda>s9.
     bt (LPlus (Sym not_newline)) s9 (\<lambda>s10.
       if lookahead_amount s10
       then Some \<lparr>g_day = between s1 s2, g_month = between s3 s4, g_year = between s5 s6,
                   g_code = between s7 s8, g_desc = between s9 s10, g_rest = s10\<rparr>
       else None))))))))))"

text \<open>
  The date prefix of \<open>trans_pattern\<close>, \<open>^\s*(\d{2})\s+(\d{2})\s+(\d{2})\<close>, on its own: the rest
  of the line after it.
\<close>

definition date_prefix :: "string \<Rightarrow> string option" where
  "date_prefix s =
     bt (Star (Sym is_space)) s (\<lambda>s1.
     bt (Rep 2 (Sym is_digit)) s1 (\<lambda>s2.
     bt (Plus (Sym is_space)) s2 (\<lambda>s3.
     bt (Rep 2 (Sym is_digit)) s3 (\<lambda>s4.
     bt (Plus (Sym is_space)) s4 (\<lambda>s5.
     bt (Rep 2 (Sym is_digit)) s5 Some)))))"

text \<open>\<open>re.search(r'(\d+/\d+)', desc)\<close>: the leftmost match, or \<open>None\<close>.\<close>

definition cuota_at :: "string \<Rightarrow> string option" where
  "cuota_at s =
     bt (Seq (Plus (Sym is_digit)) (Seq (Sym (is_chr CHR ''/'')) (Plus (Sym is_digit)))) s
       (\<lambda>s'. Some (between s s'))"

fun cuota_search :: "string \<Rightarrow> string option" where
  "cuota_search [] = None"
| "cuota_search (c # cs) =
     (case cuota_at (c # cs) of Some g \<Rightarrow> Some g | None \<Rightarrow> cuota_search cs)"

text \<open>
  \<open>re.sub(r'\s*' + re.escape(lit) + r'\s*', '', s)\<close>: every match, from left to right, is
  deleted. Where the pattern matches the empty string (only for an empty \<open>lit\<close>) nothing is
  deleted and the scan moves one character on.
\<close>

function re_sub_lit :: "string \<Rightarrow> string \<Rightarrow> string" where
  "re_sub_lit lit [] = []"
| "re_sub_lit lit (c # cs) =
     (case bt (Seq (Star (Sym is_space)) (Seq (Lit lit) (Star (Sym is_space)))) (c # cs) Some of
        Some rest \<Rightarrow>
          if length rest < length (c # cs) then re_sub_lit lit rest else c # re_sub_lit lit cs
      | None \<Rightarrow> c # re_sub_lit lit cs)"
  by pat_completeness auto
termination
  by (relation "measure (\<lambda>(lit, s). length s)") auto

text \<open>The dictionaries of the four special cases and of a transaction.\<close>

definition special :: "string \<Rightarrow> string \<Rightarrow> string \<Rightarrow> string \<Rightarrow> string \<Rightarrow> py_error + txn option" where
  "special fecha desc tipo a b =
     bind_err (amount a) (\<lambda>uyu.
     bind_err (amount b) (\<lambda>usd.
       Inr (Some \<lparr>Fecha = fecha, Codigo = '''', Descripcion = desc, Cuotas = '''',
                   Monto_UYU = uyu, Monto_USD = Some usd, Tipo = tipo\<rparr>)))"

definition transaction :: "trans_groups \<Rightarrow> py_error + txn option" where
  "transaction g =
     (let code = g_code g;
          desc = strip (g_desc g);
          cuotas = (case cuota_search desc of Some c \<Rightarrow> c | None \<Rightarrow> '''');
          desc = (if cuotas \<noteq> '''' then strip (re_sub_lit cuotas desc) else desc);
          remaining = strip (g_rest g);
          amounts = findall_num remaining
      in if amounts = [] then Inr None
         else
           bind_err (amount (last amounts)) (\<lambda>uyu.
           bind_err (if 1 < length amounts
                     then bind_err (amount (amounts ! (length amounts - 2))) (\<lambda>v. Inr (Some v))
                     else Inr None) (\<lambda>usd.
             Inr (Some \<lparr>Fecha = g_day g @ ''/'' @ g_month g @ ''/'' @ g_year g, Codigo = code,
                         Descripcion = desc, Cuotas = cuotas,
                         Monto_UYU = uyu, Monto_USD = usd, Tipo = Transaccion\<rparr>))))"

text \<open>
  The four special cases. Each is one \<open>if marker in line:\<close> block of the source: \<open>Some r\<close>
  when the block returns \<open>r\<close>, \<open>None\<close> when control leaves the block and goes on to the
  statement after it (the inner test has no \<open>else\<close>). In a result, \<open>Inr None\<close> is the \<open>None\<close>
  of the source and \<open>Inl e\<close> an exception that leaves the function.
\<close>

definition saldo_anterior :: "string \<Rightarrow> (py_error + txn option) option" where
  "saldo_anterior line =
     (if contains ''SALDO DEL ESTADO DE CUENTA ANTERIOR'' line
      then (let amounts = findall_num line in
            if 2 \<le> length amounts
            then Some (special '''' ''SALDO ANTERIOR'' ''Saldo''
                         (amounts ! (length amounts - 2)) (last amounts))
            else None)
      else None)"

definition pagos :: "string \<Rightarrow> (py_error + txn option) option" where
  "pagos line =
     (if contains ''PAGOS'' line
      then (let date_match = date_search line; amounts = findall_num line in
            case date_match of
              Some (d, m, y) \<Rightarrow>
                if 2 \<le> length amounts
                then Some (special (d @ ''/'' @ m @ ''/'' @ y) ''PAGOS'' ''Pago''
                             (amounts ! (length amounts - 2)) (last amounts))
                else None
            | None \<Rightarrow> None)
      else None)"

definition seguro :: "string \<Rightarrow> (py_error + txn option) option" where
  "seguro line =
     (if contains ''SEGURO DE VIDA SOBRE SALDO'' line
      then (let amounts = findall_num line in
            if 2 \<le> length amounts
            then Some (special '''' ''SEGURO DE VIDA'' ''Cargo'' (amounts ! 0) (amounts ! 1))
            else None)
      else None)"

definition saldo_contado :: "string \<Rightarrow> (py_error + txn option) option" where
  "saldo_contado line =
     (if contains ''SALDO CONTADO'' line
      then (let amounts = findall_num line in
            if 2 \<le> length amounts
            then Some (special '''' ''SALDO FINAL'' ''Saldo''
                         (amounts ! (length amounts - 2)) (last amounts))
            else None)
      else None)"

definition parse_line :: "string \<Rightarrow> py_error + txn option" where
  "parse_line line0 =
     (let line = rstrip line0 in
      if length line < 20 then Inr None
      else case saldo_anterior line of Some r \<Rightarrow> r | None \<Rightarrow>
           case pagos line of Some r \<Rightarrow> r | None \<Rightarrow>
           case seguro line of Some r \<Rightarrow> r | None \<Rightarrow>
           case saldo_contado line of Some r \<Rightarrow> r | None \<Rightarrow>
           case trans_match line of Some g \<Rightarrow> transaction g | None \<Rightarrow> Inr None)"

section \<open>The text parser\<close>

text \<open>\<open>text.split('\n')\<close>; the result is never the empty list, so the last case is not reached.\<close>

fun split_nl :: "string \<Rightarrow> string list" where
  "split_nl [] = [[]]"
| "split_nl (c # cs) =
     (if c = CHR 0x0A then [] # split_nl cs
      else case split_nl cs of l # ls \<Rightarrow> (c # l) # ls | [] \<Rightarrow> [[c]])"

text \<open>
  The loop of \<open>parse_text_to_csv\<close>: the records of the lines, in the order of the lines; an
  exception in a line leaves the loop.
\<close>

fun collect :: "string list \<Rightarrow> py_error + txn list" where
  "collect [] = Inr []"
| "collect (l # ls) =
     bind_err (parse_line l) (\<lambda>parsed.
     bind_err (collect ls) (\<lambda>rest.
       Inr (case parsed of Some t \<Rightarrow> t # rest | None \<Rightarrow> rest)))"

definition transactions_of :: "string \<Rightarrow> py_error + txn list" where
  "transactions_of text = collect (filter (\<lambda>l. strip l \<noteq> []) (split_nl text))"

text \<open>
  A cell of the assembled frame, and the row of a record in the fixed column order
  \<open>Fecha, Codigo, Descripcion, Cuotas, Monto_UYU, Monto_USD, Tipo\<close>; a missing \<open>Monto_USD\<close> is
  filled with the empty string.
\<close>

datatype cell = Text string | Number rat

definition row_of :: "txn \<Rightarrow> cell list" where
  "row_of t =
     [Text (Fecha t), Text (Codigo t), Text (Descripcion t), Text (Cuotas t),
      Number (Monto_UYU t),
      (case Monto_USD t of None \<Rightarrow> Text '''' | Some v \<Rightarrow> Number v),
      Text (Tipo t)]"

section \<open>The table cleaner\<close>

text \<open>
  A column of text cells (dtype \<open>object\<close>: a string, or \<open>None\<close> for a missing cell) or of
  numbers (\<open>None\<close> is NaN). A frame is the list of its labelled columns, all of one length.
\<close>

datatype column = ObjectCol "string option list" | NumericCol "rat option list"

text \<open>
  \<open>col.str.match(r'^-?\d+[.,]?\d*$', na=False)\<close> on one cell; \<open>$\<close> matches at the end of the
  string and before a newline that ends it.
\<close>

definition is_sep :: "char \<Rightarrow> bool" where
  "is_sep c = (c = CHR ''.'' \<or> c = CHR '','')"

definition numeric_like :: "string \<Rightarrow> bool" where
  "numeric_like s =
     (bt (Seq (Opt (Sym (is_chr CHR ''-'')))
           (Seq (Plus (Sym is_digit)) (Seq (Opt (Sym is_sep)) (Star (Sym is_digit))))) s
         (\<lambda>r. if r = [] \<or> r = [CHR 0x0A] then Some r else None) \<noteq> None)"

definition cell_matches :: "string option \<Rightarrow> bool" where
  "cell_matches c = (case c of None \<Rightarrow> False | Some s \<Rightarrow> numeric_like s)"

text \<open>The labels of the columns with at least one matching cell (\<open>.any()\<close>).\<close>

definition numeric_cols :: "('l \<times> string option list) list \<Rightarrow> 'l list" where
  "numeric_cols df = map fst (filter (\<lambda>(l, cells). list_ex cell_matches cells) df)"

text \<open>
  \<open>pd.to_numeric(df[col].str.replace(',', '.').str.replace('.', '', regex=False), errors='coerce')\<close>
  on one cell: first every comma becomes a point, then every point is removed. The parser of
  \<open>pd.to_numeric\<close> is the parameter \<open>to_numeric\<close>; \<open>None\<close> is NaN.
\<close>

definition coerce_cell :: "(string \<Rightarrow> rat option) \<Rightarrow> string option \<Rightarrow> rat option" where
  "coerce_cell to_numeric c =
     (case c of
        None \<Rightarrow> None
      | Some s \<Rightarrow> to_numeric (remove_chr CHR ''.'' (replace_chr CHR '','' CHR ''.'' s)))"

text \<open>
  \<open>df[col] = ...\<close> for one label. \<open>df[col]\<close> is a column only when exactly one column has the
  label; for a label that occurs twice it is a frame, and \<open>.str\<close> raises \<open>AttributeError\<close>, as
  it does on a column of numbers.
\<close>

definition coerce_col ::
  "(string \<Rightarrow> rat option) \<Rightarrow> 'l \<Rightarrow> ('l \<times> column) list \<Rightarrow> py_error + ('l \<times> column) list" where
  "coerce_col to_numeric col df =
     (case filter (\<lambda>(l, c). l = col) df of
        [(l, ObjectCol cells)] \<Rightarrow>
          Inr (map (\<lambda>(l', c). if l' = col
                               then (l', NumericCol (map (coerce_cell to_numeric) cells))
                               else (l', c)) df)
      | _ \<Rightarrow> Inl AttributeError)"

definition coerce_numeric_cols ::
  "(string \<Rightarrow> rat option) \<Rightarrow> ('l \<times> string option list) list \<Rightarrow> py_error + ('l \<times> column) list" where
  "coerce_numeric_cols to_numeric df =
     foldl (\<lambda>acc col. bind_err acc (coerce_col to_numeric col))
       (Inr (map (\<lambda>(l, cells). (l, ObjectCol cells)) df)) (numeric_cols df)"

text \<open>\<open>df.dropna(thresh=2)\<close>: the rows with at least two cells that are not missing.\<close>

definition col_length :: "column \<Rightarrow> nat" where
  "col_length c = (case c of ObjectCol xs \<Rightarrow> length xs | NumericCol xs \<Rightarrow> length xs)"

definition nrows :: "('l \<times> column) list \<Rightarrow> nat" where
  "nrows df = (case df of [] \<Rightarrow> 0 | (l, c) # _ \<Rightarrow> col_length c)"

definition present :: "column \<Rightarrow> nat \<Rightarrow> bool" where
  "present c i = (case c of ObjectCol xs \<Rightarrow> xs ! i \<noteq> None | NumericCol xs \<Rightarrow> xs ! i \<noteq> None)"

definition kept_rows :: "('l \<times> column) list \<Rightarrow> nat list" where
  "kept_rows df = filter (\<lambda>i. 2 \<le> length (filter (\<lambda>(l, c). present c i) df)) [0..<nrows df]"

definition select_rows :: "nat list \<Rightarrow> column \<Rightarrow> column" where
  "select_rows is c =
     (case c of
        ObjectCol xs \<Rightarrow> ObjectCol (map ((!) xs) is)
      | NumericCol xs \<Rightarrow> NumericCol (map ((!) xs) is))"

definition dropna_thresh2 :: "('l \<times> column) list \<Rightarrow> ('l \<times> column) list" where
  "dropna_thresh2 df = map (\<lambda>(l, c). (l, select_rows (kept_rows df) c)) df"

definition clean_df ::
  "(string \<Rightarrow> rat option) \<Rightarrow> ('l \<times> string option list) list \<Rightarrow> py_error + ('l \<times> column) list" where
  "clean_df to_numeric df =
     bind_err (coerce_numeric_cols to_numeric df) (\<lambda>df'. Inr (dropna_thresh2 df'))"

section \<open>The conversion\<close>

text \<open>
  What the PDF component gives for a page: \<open>extract_table()\<close>, a grid of cells or \<open>None\<close>, and
  \<open>extract_text(layout=True)\<close>.
\<close>

record page =
  page_table :: "string option list list option"
  page_text :: "string option"

text \<open>
  The collaborators outside the repository: the file system, the PDF component, pandas
  (building and concatenating the frames of the tables, writing a frame and the assembled
  records as CSV, reading the CSV back and counting its rows) and the completion service,
  which is given the first 10000 characters of the text after its fixed instruction.
\<close>

record ext =
  path_exists :: "string \<Rightarrow> bool"
  open_pdf :: "string \<Rightarrow> py_error + page list"
  to_numeric :: "string \<Rightarrow> rat option"
  concat_tables :: "string option list list list \<Rightarrow> py_error + (string option \<times> string option list) list"
  frame_to_csv :: "(string option \<times> column) list \<Rightarrow> string"
  records_to_csv :: "cell list list \<Rightarrow> string"
  read_csv_len :: "string \<Rightarrow> py_error + nat"
  chat :: "string \<Rightarrow> py_error + string option"

datatype stage = TableStage | TextStage | LlmStage

definition lower_chr :: "char \<Rightarrow> char" where
  "lower_chr c =
     (let n = (of_char c :: nat)
      in if (65 \<le> n \<and> n \<le> 90) \<or> (192 \<le> n \<and> n \<le> 222 \<and> n \<noteq> 215) then char_of (n + 32) else c)"

definition lower :: "string \<Rightarrow> string" where
  "lower s = map lower_chr s"

definition endswith :: "string \<Rightarrow> string \<Rightarrow> bool" where
  "endswith s suf = suffix suf s"

text \<open>Lines 13 to 16: the two checks, each raising.\<close>

definition validate :: "ext \<Rightarrow> string \<Rightarrow> py_error + unit" where
  "validate e file_path =
     (if \<not> path_exists e file_path then Inl FileNotFoundError
      else if \<not> endswith (lower file_path) ''.pdf'' then Inl ValueError
      else Inr ())"

text \<open>
  Lines 19 to 32: the tables of the pages with more than one row, concatenated and cleaned;
  the CSV when more than five rows are left, else \<open>None\<close>.
\<close>

definition accepted_tables :: "page list \<Rightarrow> string option list list list" where
  "accepted_tables pages =
     concat (map (\<lambda>p. case page_table p of
                         None \<Rightarrow> []
                       | Some t \<Rightarrow> if t \<noteq> [] \<and> 1 < length t then [t] else []) pages)"

definition table_stage :: "ext \<Rightarrow> page list \<Rightarrow> py_error + string option" where
  "table_stage e pages =
     (let tables = accepted_tables pages in
      if tables \<noteq> []
      then bind_err (concat_tables e tables) (\<lambda>combined.
           bind_err (clean_df (to_numeric e) combined) (\<lambda>cleaned.
             if 5 < nrows cleaned then Inr (Some (frame_to_csv e cleaned)) else Inr None))
      else Inr None)"

text \<open>
  Lines 36 to 38. In \<open>page.extract_text(layout=True) or "" + "\n"\<close> the sum binds tighter than
  \<open>or\<close>: the value is the text of the page when it is not empty, and \<open>"" + "\n"\<close> otherwise.
\<close>

definition text_or_newline :: "string option \<Rightarrow> string" where
  "text_or_newline t =
     (case t of
        Some s \<Rightarrow> if s \<noteq> [] then s else [] @ [CHR 0x0A]
      | None \<Rightarrow> [] @ [CHR 0x0A])"

definition build_full_text :: "page list \<Rightarrow> string" where
  "build_full_text pages = foldl (\<lambda>full_text p. full_text @ text_or_newline (page_text p)) [] pages"

text \<open>\<open>parse_text_to_csv\<close>: \<open>None\<close> for fewer than three records.\<close>

definition parse_text_to_csv :: "ext \<Rightarrow> string \<Rightarrow> py_error + string option" where
  "parse_text_to_csv e text =
     bind_err (transactions_of text) (\<lambda>transactions.
       if length transactions < 3 then Inr None
       else Inr (Some (records_to_csv e (map row_of transactions))))"

text \<open>\<open>parse_with_llm\<close>: the stripped answer, or the empty string for no answer.\<close>

definition parse_with_llm :: "ext \<Rightarrow> string \<Rightarrow> py_error + string" where
  "parse_with_llm e text =
     bind_err (chat e (take 10000 text)) (\<lambda>content.
       Inr (case content of
              Some c \<Rightarrow> if c \<noteq> [] then strip c else []
            | None \<Rightarrow> []))"

text \<open>
  Lines 40 to 48: the stages after the table stage, with the stages entered so far as the
  state. The CSV of the text parser is returned when reading it back gives more than three
  rows; else the completion service is asked.
\<close>

definition text_stage :: "ext \<Rightarrow> string \<Rightarrow> py_error + string option" where
  "text_stage e full_text =
     bind_err (parse_text_to_csv e full_text) (\<lambda>csv_from_text.
       case csv_from_text of
         Some csv \<Rightarrow>
           if csv \<noteq> []
           then bind_err (read_csv_len e csv) (\<lambda>n. if 3 < n then Inr (Some csv) else Inr None)
           else Inr None
       | None \<Rightarrow> Inr None)"

text \<open>
  \<open>pdf_to_csv\<close>: the stages entered, in order, and the value returned; every exception is
  caught and gives \<open>None\<close>.
\<close>

definition pdf_to_csv :: "ext \<Rightarrow> string \<Rightarrow> stage list \<times> string option" where
  "pdf_to_csv e file_path =
     (case validate e file_path of
        Inl err \<Rightarrow> ([], None)
      | Inr _ \<Rightarrow>
         (case open_pdf e file_path of
            Inl err \<Rightarrow> ([TableStage], None)
          | Inr pages \<Rightarrow>
             (case table_stage e pages of
                Inl err \<Rightarrow> ([TableStage], None)
              | Inr (Some csv) \<Rightarrow> ([TableStage], Some csv)
              | Inr None \<Rightarrow>
                 (let full_text = build_full_text pages in
                  case text_stage e full_text of
                    Inl err \<Rightarrow> ([TableStage, TextStage], None)
                  | Inr (Some csv) \<Rightarrow> ([TableStage, TextStage], Some csv)
                  | Inr None \<Rightarrow>
                     (case parse_with_llm e full_text of
                        Inl err \<Rightarrow> ([TableStage, TextStage, LlmStage], None)
                      | Inr answer \<Rightarrow> ([TableStage, TextStage, LlmStage], Some answer))))))"

section \<open>Notions for the proofs\<close>

text \<open>
  A line that starts with a date: blanks, two digits, blanks, two digits, blanks and two
  digits, and then \<open>rest\<close>.
\<close>

definition dated :: "string \<Rightarrow> string \<Rightarrow> bool" where
  "dated s rest =
     (\<exists>w1 a b w2 c d w3 e f.
        s = w1 @ a # b # w2 @ c # d # w3 @ e # f # rest
        \<and> (\<forall>x \<in> set w1. is_space x) \<and> (\<forall>x \<in> set w2. is_space x) \<and> (\<forall>x \<in> set w3. is_space x)
        \<and> is_digit a \<and> is_digit b \<and> is_digit c \<and> is_digit d \<and> is_digit e \<and> is_digit f)"

text \<open>What a record of the classifier is: its kind, and an amount read from a token.\<close>

definition emitted :: "string \<Rightarrow> py_error + txn option \<Rightarrow> bool" where
  "emitted ti r =
     (\<exists>t. r = Inr (Some t) \<and> Tipo t = ti
          \<and> (\<exists>tok. tok \<in> lang num_pattern \<and> amount tok = Inr (Monto_UYU t)))"

text \<open>A column after its coercion to numbers.\<close>

definition coerced :: "(string \<Rightarrow> rat option) \<Rightarrow> column \<Rightarrow> column" where
  "coerced f c =
     (case c of ObjectCol cells \<Rightarrow> NumericCol (map (coerce_cell f) cells) | NumericCol xs \<Rightarrow> NumericCol xs)"

section \<open>Sample inputs\<close>

text \<open>
  A stand-in for the collaborators, for the worked examples: every path but one exists, the
  file has the given pages, the numeric parser reads plain decimals, the CSV of \<open>n\<close> records
  has a header line and \<open>n\<close> lines, and reading it back counts the lines after the header.
\<close>

definition sample_csv :: "cell list list \<Rightarrow> string" where
  "sample_csv rows =
     ''Fecha,Codigo,Descripcion,Cuotas,Monto_UYU,Monto_USD,Tipo'' @ [CHR 0x0A]
       @ concat (map (\<lambda>r. ''row'' @ [CHR 0x0A]) rows)"

definition sample_csv_len :: "string \<Rightarrow> py_error + nat" where
  "sample_csv_len s = Inr (length (filter (\<lambda>c. c = CHR 0x0A) s) - 1)"

definition sample_ext :: "page list \<Rightarrow> ext" where
  "sample_ext pages =
     \<lparr>path_exists = (\<lambda>p. p \<noteq> ''missing.pdf''),
      open_pdf = (\<lambda>p. Inr pages),
      to_numeric = py_float,
      concat_tables = (\<lambda>ts. Inl ExternalError),
      frame_to_csv = (\<lambda>df. []),
      records_to_csv = sample_csv,
      read_csv_len = sample_csv_len,
      chat = (\<lambda>prompt. Inr (Some ''answer''))\<rparr>"

definition page_one :: page where
  "page_one = \<lparr>page_table = None,
                page_text = Some (''01 02 24  AB    1,00'' @ [CHR 0x0A] @ ''03 04 24  CD'')\<rparr>"

definition page_two :: page where
  "page_two = \<lparr>page_table = None,
                page_text = Some (''    2,00'' @ [CHR 0x0A] @ ''05 06 24  EF    3,00'')\<rparr>"

definition page_three :: page where
  "page_three = \<lparr>page_table = None,
                  page_text = Some ([CHR 0x0A] @ ''07 08 24  GH    4,00'')\<rparr>"

definition sample_txn :: "string \<Rightarrow> string \<Rightarrow> rat \<Rightarrow> txn" where
  "sample_txn fecha desc uyu =
     \<lparr>Fecha = fecha, Codigo = [], Descripcion = desc, Cuotas = [],
      Monto_UYU = uyu, Monto_USD = None, Tipo = Transaccion\<rparr>"

section \<open>Soundness and completeness of the matcher\<close>

lemma bt_sound:
  "bt r s k = Some x \<Longrightarrow> \<exists>w s'. s = w @ s' \<and> w \<in> lang r \<and> k s' = Some x"
proof (induction r s k arbitrary: x rule: bt.induct)
  case (1 P s k)
  then obtain c cs where "s = c # cs" "P c" "k cs = Some x"
    by (auto split: list.splits if_splits)
  then have "s = [c] @ cs \<and> [c] \<in> lang (Sym P) \<and> k cs = Some x" by simp
  then show ?case by blast
next
  case (2 s k)
  then show ?case by auto
next
  case (3 a b s k)
  from "3.prems" have "bt a s (\<lambda>s'. bt b s' k) = Some x" by simp
  from "3.IH"(2)[OF this] obtain w s' where w: "s = w @ s'" "w \<in> lang a" "bt b s' k = Some x"
    by blast
  from "3.IH"(1)[OF w(3)] obtain v t where v: "s' = v @ t" "v \<in> lang b" "k t = Some x"
    by blast
  have "s = (w @ v) @ t" using w v by simp
  moreover have "w @ v \<in> lang (Seq a b)" using w v by auto
  ultimately show ?case using v(3) by blast
next
  case (4 a b s k)
  show ?case
  proof (cases "bt a s k")
    case None
    with "4.prems" have "bt b s k = Some x" by simp
    from "4.IH"(2)[OF None this] show ?thesis by auto
  next
    case (Some y)
    with "4.prems" have "bt a s k = Some x" by simp
    from "4.IH"(1)[OF this] show ?thesis by auto
  qed
next
  case (5 a s k)
  let ?k = "\<lambda>s'. if length s' < length s then bt (Star a) s' k else None"
  show ?case
  proof (cases "bt a s ?k")
    case None
    with "5.prems" have "k s = Some x" by simp
    then show ?thesis by (auto intro: star.star_nil)
  next
    case (Some y)
    with "5.prems" have e: "bt a s ?k = Some x" by simp
    from "5.IH"(2)[OF e] obtain w s' where w: "s = w @ s'" "w \<in> lang a" "?k s' = Some x"
      by blast
    then have l: "length s' < length s" and r: "bt (Star a) s' k = Some x"
      by (auto split: if_splits)
    from "5.IH"(1)[OF l r] obtain v t where v: "s' = v @ t" "v \<in> lang (Star a)" "k t = Some x"
      by blast
    have "s = (w @ v) @ t" using w v by simp
    moreover have "w @ v \<in> lang (Star a)" using w v by (auto intro: star.star_step)
    ultimately show ?thesis using v(3) by blast
  qed
next
  case (6 a s k)
  let ?k = "\<lambda>s'. if length s' < length s then bt (LStar a) s' k else None"
  show ?case
  proof (cases "k s")
    case (Some y)
    with "6.prems" have "k s = Some x" by simp
    then show ?thesis by (auto intro: star.star_nil)
  next
    case None
    with "6.prems" have e: "bt a s ?k = Some x" by simp
    from "6.IH"(2)[OF None e] obtain w s' where w: "s = w @ s'" "w \<in> lang a" "?k s' = Some x"
      by blast
    then have l: "length s' < length s" and r: "bt (LStar a) s' k = Some x"
      by (auto split: if_splits)
    from "6.IH"(1)[OF None l r] obtain v t where v: "s' = v @ t" "v \<in> lang (LStar a)" "k t = Some x"
      by blast
    have "s = (w @ v) @ t" using w v by simp
    moreover have "w @ v \<in> lang (LStar a)" using w v by (auto intro: star.star_step)
    ultimately show ?thesis using v(3) by blast
  qed
qed


lemma bt_star_complete:
  assumes IH: "\<And>w s' k. w \<in> lang a \<Longrightarrow> k s' \<noteq> None \<Longrightarrow> bt a (w @ s') (k :: string \<Rightarrow> 'a option) \<noteq> None"
  assumes w: "w \<in> star (lang a)" and k: "(k :: string \<Rightarrow> 'a option) s' \<noteq> None"
  shows "bt (Star a) (w @ s') k \<noteq> None"
  using w
proof (induction rule: star.induct)
  case star_nil
  then show ?case using k by (simp split: option.splits)
next
  case (star_step u v)
  show ?case
  proof (cases "u = []")
    case True
    then show ?thesis using star_step.IH by simp
  next
    case False
    let ?s = "u @ v @ s'"
    let ?k = "\<lambda>t. if length t < length ?s then bt (Star a) t k else None"
    have "?k (v @ s') \<noteq> None" using False star_step.IH by simp
    with IH[of u ?k "v @ s'"] star_step.hyps(1)
    have "bt a ?s ?k \<noteq> None" by simp
    then show ?thesis by (auto split: option.splits)
  qed
qed

lemma bt_lstar_complete:
  assumes IH: "\<And>w s' k. w \<in> lang a \<Longrightarrow> k s' \<noteq> None \<Longrightarrow> bt a (w @ s') (k :: string \<Rightarrow> 'a option) \<noteq> None"
  assumes w: "w \<in> star (lang a)" and k: "(k :: string \<Rightarrow> 'a option) s' \<noteq> None"
  shows "bt (LStar a) (w @ s') k \<noteq> None"
  using w
proof (induction rule: star.induct)
  case star_nil
  then show ?case using k by (auto split: option.splits)
next
  case (star_step u v)
  show ?case
  proof (cases "u = []")
    case True
    then show ?thesis using star_step.IH by simp
  next
    case False
    let ?s = "u @ v @ s'"
    let ?k = "\<lambda>t. if length t < length ?s then bt (LStar a) t k else None"
    have "?k (v @ s') \<noteq> None" using False star_step.IH by simp
    with IH[of u ?k "v @ s'"] star_step.hyps(1)
    have "bt a ?s ?k \<noteq> None" by simp
    then show ?thesis by (auto split: option.splits)
  qed
qed

lemma bt_complete:
  "w \<in> lang r \<Longrightarrow> k s' \<noteq> None \<Longrightarrow> bt r (w @ s') (k :: string \<Rightarrow> 'a option) \<noteq> None"
proof (induction r arbitrary: w s' k)
  case (Sym P)
  then show ?case by auto
next
  case Eps
  then show ?case by simp
next
  case (Seq a b)
  from Seq.prems obtain u v where uv: "w = u @ v" "u \<in> lang a" "v \<in> lang b" by auto
  have "bt b (v @ s') k \<noteq> None" using Seq.IH(2)[of v k s'] uv(3) Seq.prems(2) by simp
  then have "bt a (u @ (v @ s')) (\<lambda>t. bt b t k) \<noteq> None"
    using Seq.IH(1)[of u "\<lambda>t. bt b t k" "v @ s'"] uv(2) by simp
  then show ?case using uv by simp
next
  case (Alt a b)
  from Alt.prems(1) have "w \<in> lang a \<or> w \<in> lang b" by simp
  then show ?case
  proof
    assume "w \<in> lang a"
    with Alt.IH(1)[of w k s'] Alt.prems(2) have "bt a (w @ s') k \<noteq> None" by simp
    then show ?thesis by (auto split: option.splits)
  next
    assume "w \<in> lang b"
    with Alt.IH(2)[of w k s'] Alt.prems(2) have "bt b (w @ s') k \<noteq> None" by simp
    then show ?thesis by (auto split: option.splits)
  qed
next
  case (Star a)
  then show ?case using bt_star_complete[of a w k s'] by simp
next
  case (LStar a)
  then show ?case using bt_lstar_complete[of a w k s'] by simp
qed

section \<open>Matches of the numeric token\<close>

lemma num_pattern_nonempty: "w \<in> lang num_pattern \<Longrightarrow> w \<noteq> []"
  by (auto simp: num_pattern_def Opt_def Plus_def)

lemma match_num_shorter: "match_num s = Some rest \<Longrightarrow> length rest < length s"
proof -
  assume "match_num s = Some rest"
  then obtain w s' where "s = w @ s'" "w \<in> lang num_pattern" "Some s' = Some rest"
    unfolding match_num_def using bt_sound[of num_pattern s Some rest] by auto
  then show ?thesis using num_pattern_nonempty[of w] by auto
qed

lemma findall_num_step:
  "findall_num (c # cs) =
     (case match_num (c # cs) of
        Some rest \<Rightarrow> between (c # cs) rest # findall_num rest
      | None \<Rightarrow> findall_num cs)"
  by (auto split: option.splits dest: match_num_shorter)

lemma findall_num_induct:
  assumes "P []"
    and "\<And>c cs. (match_num (c # cs) = None \<Longrightarrow> P cs) \<Longrightarrow>
           (\<And>rest. match_num (c # cs) = Some rest \<Longrightarrow> P rest) \<Longrightarrow> P (c # cs)"
  shows "P s"
proof (induction s rule: findall_num.induct)
  case 1
  show ?case by (rule assms(1))
next
  case (2 c cs)
  show ?case
  proof (rule assms(2))
    assume "match_num (c # cs) = None"
    then show "P cs" using "2.IH" by blast
  next
    fix rest assume m: "match_num (c # cs) = Some rest"
    from m match_num_shorter[OF m] show "P rest" using "2.IH" by blast
  qed
qed

declare findall_num.simps(2) [simp del]
declare findall_num_step [simp]

section \<open>Evaluation\<close>

lemmas line_eval =
  parse_line_def saldo_anterior_def pagos_def seguro_def saldo_contado_def
  trans_match_def transaction_def special_def amount_def normalize_def py_float_def
  replace_chr_def remove_chr_def digits_val_def digit_val_def is_digit_def is_space_def
  not_newline_def is_chr_def rstrip_def strip_def between_def bind_err_def
  num_pattern_def match_num_def date_at_def lookahead_amount_def cuota_at_def
  Opt_def Plus_def LPlus_def Transaccion_def eval_nat_numeral

lemmas frame_eval =
  clean_df_def coerce_numeric_cols_def numeric_cols_def cell_matches_def numeric_like_def
  coerce_col_def coerce_cell_def dropna_thresh2_def kept_rows_def nrows_def col_length_def
  present_def select_rows_def bind_err_def py_float_def replace_chr_def remove_chr_def
  digits_val_def digit_val_def is_digit_def is_chr_def is_sep_def Opt_def Plus_def upt_conv_Cons

section \<open>The text handed to the later stages\<close>

lemma foldl_full_text:
  "foldl (\<lambda>ft p. ft @ text_or_newline (page_text p)) acc pages =
   acc @ concat (map (\<lambda>p. text_or_newline (page_text p)) pages)"
  by (induction pages arbitrary: acc) simp_all

lemma split_nl_nonempty: "split_nl s \<noteq> []"
  by (induction s) (simp_all split: list.splits)

lemma split_nl_append:
  "split_nl (a @ b) = butlast (split_nl a) @ [last (split_nl a) @ hd (split_nl b)] @ tl (split_nl b)"
proof (induction a)
  case Nil
  then show ?case using split_nl_nonempty[of b] by simp
next
  case (Cons c a)
  show ?case
  proof (cases "c = CHR 0x0A")
    case True
    then show ?thesis using Cons split_nl_nonempty[of a] by simp
  next
    case False
    show ?thesis
    proof (cases "split_nl a")
      case Nil
      then show ?thesis using split_nl_nonempty[of a] by simp
    next
      case (Cons x xs)
      then show ?thesis using False Cons.IH split_nl_nonempty[of b]
        by (cases xs; cases "split_nl b") simp_all
    qed
  qed
qed

text \<open>
  C10. In the text built for the text parser and the completion service, a page contributes
  its own text when that text is not empty and a single newline when it is empty or absent.
  So the texts of pages that all yield text are joined with nothing between them, and for two
  such pages the last line of the first and the first line of the second are one line of the
  joined text.
\<close>

theorem full_text_separator:
  "build_full_text pages =
     concat (map (\<lambda>p. case page_text p of
                         Some s \<Rightarrow> if s = [] then [CHR 0x0A] else s
                       | None \<Rightarrow> [CHR 0x0A]) pages)
   \<and> ((\<forall>p \<in> set pages. \<exists>s. page_text p = Some s \<and> s \<noteq> []) \<longrightarrow>
        build_full_text pages = concat (map (\<lambda>p. the (page_text p)) pages))
   \<and> (page_text p = Some a \<and> a \<noteq> [] \<and> page_text q = Some b \<and> b \<noteq> [] \<longrightarrow>
        build_full_text [p, q] = a @ b
        \<and> split_nl (build_full_text [p, q]) =
            butlast (split_nl a) @ [last (split_nl a) @ hd (split_nl b)] @ tl (split_nl b))"
proof -
  have 1: "build_full_text ps = concat (map (\<lambda>p. text_or_newline (page_text p)) ps)" for ps
    unfolding build_full_text_def by (simp add: foldl_full_text)
  have 2: "text_or_newline t =
             (case t of Some s \<Rightarrow> if s = [] then [CHR 0x0A] else s | None \<Rightarrow> [CHR 0x0A])" for t
    by (simp add: text_or_newline_def split: option.splits)
  have a: "build_full_text pages =
     concat (map (\<lambda>p. case page_text p of
                         Some s \<Rightarrow> if s = [] then [CHR 0x0A] else s
                       | None \<Rightarrow> [CHR 0x0A]) pages)"
    by (simp add: 1 2)
  have b: "(\<forall>p \<in> set pages. \<exists>s. page_text p = Some s \<and> s \<noteq> []) \<longrightarrow>
        build_full_text pages = concat (map (\<lambda>p. the (page_text p)) pages)"
  proof
    assume h: "\<forall>p \<in> set pages. \<exists>s. page_text p = Some s \<and> s \<noteq> []"
    have "map (\<lambda>p. text_or_newline (page_text p)) pages = map (\<lambda>p. the (page_text p)) pages"
      using h by (auto simp: text_or_newline_def)
    then show "build_full_text pages = concat (map (\<lambda>p. the (page_text p)) pages)"
      unfolding 1 by (rule arg_cong[where f = concat])
  qed
  have c: "page_text p = Some a \<and> a \<noteq> [] \<and> page_text q = Some b \<and> b \<noteq> [] \<longrightarrow>
        build_full_text [p, q] = a @ b
        \<and> split_nl (build_full_text [p, q]) =
            butlast (split_nl a) @ [last (split_nl a) @ hd (split_nl b)] @ tl (split_nl b)"
  proof
    assume h: "page_text p = Some a \<and> a \<noteq> [] \<and> page_text q = Some b \<and> b \<noteq> []"
    then have e: "build_full_text [p, q] = a @ b"
      by (simp add: 1 text_or_newline_def)
    show "build_full_text [p, q] = a @ b
        \<and> split_nl (build_full_text [p, q]) =
            butlast (split_nl a) @ [last (split_nl a) @ hd (split_nl b)] @ tl (split_nl b)"
      using e split_nl_append[of a b] by simp
  qed
  from a b c show ?thesis by blast
qed

theorem full_text_separator_witness:
  "page_text page_one = Some (''01 02 24  AB    1,00'' @ [CHR 0x0A] @ ''03 04 24  CD'')
   \<and> page_text page_two = Some (''    2,00'' @ [CHR 0x0A] @ ''05 06 24  EF    3,00'')
   \<and> build_full_text [page_one, page_two] =
       concat (map (\<lambda>p. the (page_text p)) [page_one, page_two])
   \<and> build_full_text [page_one, page_two] =
       ''01 02 24  AB    1,00'' @ [CHR 0x0A] @ ''03 04 24  CD    2,00'' @ [CHR 0x0A]
         @ ''05 06 24  EF    3,00''
   \<and> split_nl (build_full_text [page_one, page_two]) =
       [''01 02 24  AB    1,00'', ''03 04 24  CD    2,00'', ''05 06 24  EF    3,00'']"
proof -
  let ?a = "''01 02 24  AB    1,00'' @ [CHR 0x0A] @ ''03 04 24  CD''"
  let ?b = "''    2,00'' @ [CHR 0x0A] @ ''05 06 24  EF    3,00''"
  have t: "page_text page_one = Some ?a" "page_text page_two = Some ?b"
    by (simp_all add: page_one_def page_two_def)
  have sa: "split_nl ?a = [''01 02 24  AB    1,00'', ''03 04 24  CD'']"
    by code_simp
  have sb: "split_nl ?b = [''    2,00'', ''05 06 24  EF    3,00'']"
    by code_simp
  note th = full_text_separator[of "[page_one, page_two]" page_one ?a page_two ?b]
  have "build_full_text [page_one, page_two] = ?a @ ?b
        \<and> split_nl (build_full_text [page_one, page_two]) =
            butlast (split_nl ?a) @ [last (split_nl ?a) @ hd (split_nl ?b)] @ tl (split_nl ?b)"
    using th t by simp
  moreover have "build_full_text [page_one, page_two] =
       concat (map (\<lambda>p. the (page_text p)) [page_one, page_two])"
    using th t by simp
  ultimately show ?thesis unfolding sa sb using t by simp
qed

section \<open>Input validation\<close>

text \<open>
  C9. For a path that does not exist, or whose lower-cased name does not end in \<open>.pdf\<close>,
  the conversion returns \<open>None\<close> and enters none of the three stages.
\<close>

theorem pdf_to_csv_invalid_path:
  "\<not> path_exists e file_path \<or> \<not> endswith (lower file_path) ''.pdf'' \<Longrightarrow>
   pdf_to_csv e file_path = ([], None)"
  by (auto simp: pdf_to_csv_def validate_def)

lemma notes_not_pdf: "\<not> endswith (lower ''NOTES.TXT'') ''.pdf''"
  by code_simp

theorem pdf_to_csv_invalid_path_witness:
  "\<not> path_exists (sample_ext []) ''missing.pdf''
   \<and> pdf_to_csv (sample_ext []) ''missing.pdf'' = ([], None)
   \<and> path_exists (sample_ext []) ''NOTES.TXT''
   \<and> \<not> endswith (lower ''NOTES.TXT'') ''.pdf''
   \<and> pdf_to_csv (sample_ext []) ''NOTES.TXT'' = ([], None)"
  using pdf_to_csv_invalid_path[of "sample_ext []" "''missing.pdf''"]
    pdf_to_csv_invalid_path[of "sample_ext []" "''NOTES.TXT''"] notes_not_pdf
  by (simp add: sample_ext_def)

section \<open>Worked lines\<close>

text \<open>
  C4. The line \<open>15 03 24 1234    NETFLIX.COM          3/6        1.500,00\<close> is a
  transaction of 15/03/24 with code 1234, description NETFLIX.COM, installments 3/6, local
  amount 1500 and no foreign amount.
\<close>

theorem parse_line_netflix:
  "parse_line ''15 03 24 1234    NETFLIX.COM          3/6        1.500,00'' =
     Inr (Some \<lparr>Fecha = ''15/03/24'', Codigo = ''1234'', Descripcion = ''NETFLIX.COM'',
                 Cuotas = ''3/6'', Monto_UYU = 1500, Monto_USD = None, Tipo = Transaccion\<rparr>)"
  by (simp add: line_eval)

section \<open>Numeric coercion of a table column\<close>

text \<open>
  C1. The cleaner turns every comma into a point and then removes every point, so both
  separators are lost: in a column chosen for coercion the cell \<open>1.234,56\<close> becomes 123456
  and the cell \<open>12,50\<close> becomes 1250.
\<close>

theorem clean_df_loses_decimal_point:
  "clean_df py_float
     [(''Monto'', [Some ''1.234,56'', Some ''12,50'']), (''Detalle'', [Some ''a'', Some ''b''])] =
   Inr [(''Monto'', NumericCol [Some 123456, Some 1250]),
        (''Detalle'', ObjectCol [Some ''a'', Some ''b''])]"
  by (simp add: frame_eval)

section \<open>Numeric tokens\<close>

lemma Rep_2: "Rep 2 r = Seq r (Seq r Eps)"
  by (simp add: eval_nat_numeral)

lemma Rep_3: "Rep 3 r = Seq r (Seq r (Seq r Eps))"
  by (simp add: eval_nat_numeral)

lemma Rep_4: "Rep 4 r = Seq r (Seq r (Seq r (Seq r Eps)))"
  by (simp add: eval_nat_numeral)

lemma lang_SeqE: "w \<in> lang (Seq a b) \<Longrightarrow> \<exists>u v. w = u @ v \<and> u \<in> lang a \<and> v \<in> lang b"
  by auto

lemma star_all:
  "v \<in> star A \<Longrightarrow> \<forall>u \<in> A. \<forall>c \<in> set u. Q c \<Longrightarrow> \<forall>c \<in> set v. Q c"
  by (induction rule: star.induct) auto

lemma digit_not_punct:
  "is_digit c \<Longrightarrow> c \<noteq> CHR ''.'' \<and> c \<noteq> CHR '','' \<and> c \<noteq> CHR ''-'' \<and> c \<noteq> CHR ''+'' \<and> \<not> is_space c"
  by (auto simp: is_digit_def is_space_def)

lemma num_pattern_shape:
  assumes "w \<in> lang num_pattern"
  shows "\<exists>neg ip a b. w = (if neg then ''-'' else []) @ ip @ '','' @ [a, b]
           \<and> ip \<noteq> [] \<and> is_digit (hd ip)
           \<and> (\<forall>c \<in> set ip. is_digit c \<or> c = CHR ''.'') \<and> is_digit a \<and> is_digit b"
proof -
  from assms have "w \<in> lang (Seq (Opt (Sym (is_chr CHR ''-'')))
       (Seq (Plus (Sym is_digit))
         (Seq (Star (Seq (Sym (is_chr CHR ''.'')) (Rep 3 (Sym is_digit))))
           (Seq (Sym (is_chr CHR '','')) (Rep 2 (Sym is_digit))))))"
    by (simp only: num_pattern_def)
  then obtain u r1 where 1: "w = u @ r1" and u: "u \<in> lang (Opt (Sym (is_chr CHR ''-'')))"
    and r1: "r1 \<in> lang (Seq (Plus (Sym is_digit))
         (Seq (Star (Seq (Sym (is_chr CHR ''.'')) (Rep 3 (Sym is_digit))))
           (Seq (Sym (is_chr CHR '','')) (Rep 2 (Sym is_digit)))))"
    using lang_SeqE by blast
  from r1 obtain d r2 where 2: "r1 = d @ r2" and d: "d \<in> lang (Plus (Sym is_digit))"
    and r2: "r2 \<in> lang (Seq (Star (Seq (Sym (is_chr CHR ''.'')) (Rep 3 (Sym is_digit))))
           (Seq (Sym (is_chr CHR '','')) (Rep 2 (Sym is_digit))))"
    using lang_SeqE by blast
  from r2 obtain g t where 3: "r2 = g @ t"
    and g0: "g \<in> lang (Star (Seq (Sym (is_chr CHR ''.'')) (Rep 3 (Sym is_digit))))"
    and t: "t \<in> lang (Seq (Sym (is_chr CHR '','')) (Rep 2 (Sym is_digit)))"
    using lang_SeqE by blast
  from g0 have g: "g \<in> star (lang (Seq (Sym (is_chr CHR ''.'')) (Rep 3 (Sym is_digit))))"
    by simp
  have w: "w = u @ d @ g @ t" using 1 2 3 by simp
  from u have u': "u = [] \<or> u = ''-''" by (auto simp: Opt_def is_chr_def)
  from d obtain x y where d': "d = x # y" "is_digit x" "y \<in> star (lang (Sym is_digit))"
    by (auto simp: Plus_def)
  have y: "\<forall>c \<in> set y. is_digit c"
    by (rule star_all[OF d'(3)]) auto
  have g': "\<forall>c \<in> set g. is_digit c \<or> c = CHR ''.''"
    by (rule star_all[OF g]) (auto simp: Rep_3 is_chr_def)
  from t obtain a b where t': "t = '','' @ [a, b]" "is_digit a" "is_digit b"
    by (auto simp: Rep_2 is_chr_def)
  let ?neg = "u = ''-''"
  have "w = (if ?neg then ''-'' else []) @ (d @ g) @ '','' @ [a, b]"
    using w u' t' by auto
  moreover have "d @ g \<noteq> []" "is_digit (hd (d @ g))" using d' by auto
  moreover have "\<forall>c \<in> set (d @ g). is_digit c \<or> c = CHR ''.''" using d' y g' by auto
  ultimately show ?thesis using t'(2,3) by blast
qed

lemma normalize_token:
  assumes "\<forall>c \<in> set ip. is_digit c \<or> c = CHR ''.''" "is_digit a" "is_digit b"
  shows "normalize ((if neg then ''-'' else []) @ ip @ '','' @ [a, b]) =
           (if neg then ''-'' else []) @ remove_chr CHR ''.'' ip @ ''.'' @ [a, b]"
proof -
  have 1: "replace_chr CHR '','' CHR ''.'' (remove_chr CHR ''.'' ip) = remove_chr CHR ''.'' ip"
    using assms(1) digit_not_punct unfolding replace_chr_def remove_chr_def
    by (induction ip) auto
  show ?thesis
    using assms(2,3) digit_not_punct[of a] digit_not_punct[of b] 1
    by (simp add: normalize_def replace_chr_def remove_chr_def)
qed

lemma py_float_decimal:
  assumes "ds \<noteq> []" "\<forall>c \<in> set ds. is_digit c" "is_digit a" "is_digit b"
  shows "py_float ((if neg then ''-'' else []) @ ds @ ''.'' @ [a, b]) =
           Some ((if neg then - 1 else 1) * (of_nat (digits_val ds) + of_nat (digits_val [a, b]) / 100))"
proof -
  have nd: "\<not> is_digit CHR ''.''" by (simp add: is_digit_def)
  have tw: "takeWhile is_digit (ds @ ''.'' @ [a, b]) = ds"
    using assms(2) nd by (simp add: takeWhile_append2)
  have dw: "dropWhile is_digit (ds @ ''.'' @ [a, b]) = ''.'' @ [a, b]"
    using assms(2) nd by (simp add: dropWhile_append2)
  have h: "hd ds \<noteq> CHR ''-''" "hd ds \<noteq> CHR ''+''"
    using assms(1,2) digit_not_punct[of "hd ds"] by auto
  show ?thesis
  proof (cases neg)
    case True
    then show ?thesis using tw dw assms by (simp add: py_float_def Let_def)
  next
    case False
    have "hd (ds @ ''.'' @ [a, b]) = hd ds" using assms(1) by simp
    then show ?thesis using False tw dw assms h by (simp add: py_float_def Let_def)
  qed
qed

lemma remove_dots_digits:
  assumes "ip \<noteq> []" "is_digit (hd ip)" "\<forall>c \<in> set ip. is_digit c \<or> c = CHR ''.''"
  shows "remove_chr CHR ''.'' ip \<noteq> [] \<and> (\<forall>c \<in> set (remove_chr CHR ''.'' ip). is_digit c)"
proof -
  from assms(1) obtain x xs where ip: "ip = x # xs" by (cases ip) auto
  with assms(2) have "x \<noteq> CHR ''.''" using digit_not_punct[of x] by simp
  then show ?thesis using ip assms(3) by (auto simp: remove_chr_def)
qed

lemma amount_token:
  assumes "w \<in> lang num_pattern"
  shows "\<exists>neg ip a b. w = (if neg then ''-'' else []) @ ip @ '','' @ [a, b]
           \<and> normalize w = (if neg then ''-'' else []) @ remove_chr CHR ''.'' ip @ ''.'' @ [a, b]
           \<and> amount w = Inr ((if neg then - 1 else 1)
                 * (of_nat (digits_val (remove_chr CHR ''.'' ip)) + of_nat (digits_val [a, b]) / 100))"
proof -
  from num_pattern_shape[OF assms] obtain neg ip a b where
    w: "w = (if neg then ''-'' else []) @ ip @ '','' @ [a, b]" and
    ip: "ip \<noteq> []" "is_digit (hd ip)" "\<forall>c \<in> set ip. is_digit c \<or> c = CHR ''.''" and
    ab: "is_digit a" "is_digit b"
    by blast
  have n: "normalize w = (if neg then ''-'' else []) @ remove_chr CHR ''.'' ip @ ''.'' @ [a, b]"
    unfolding w using normalize_token[OF ip(3) ab] .
  from remove_dots_digits[OF ip] have r: "remove_chr CHR ''.'' ip \<noteq> []"
    "\<forall>c \<in> set (remove_chr CHR ''.'' ip). is_digit c" by auto
  have "amount w = Inr ((if neg then - 1 else 1)
                 * (of_nat (digits_val (remove_chr CHR ''.'' ip)) + of_nat (digits_val [a, b]) / 100))"
    unfolding amount_def n using py_float_decimal[OF r ab, of neg] by simp
  with w n show ?thesis by blast
qed

section \<open>Tokens found in a line\<close>

lemma bt_soundE:
  assumes "bt r s k = Some x"
  obtains w s' where "s = w @ s'" "w \<in> lang r" "k s' = Some x"
  using bt_sound[OF assms] by blast

lemma match_num_sound:
  assumes "match_num s = Some rest"
  shows "\<exists>w. s = w @ rest \<and> w \<in> lang num_pattern \<and> between s rest = w"
proof -
  from assms obtain w s' where "s = w @ s'" "w \<in> lang num_pattern" "Some s' = Some rest"
    unfolding match_num_def by (rule bt_soundE)
  then show ?thesis by (auto simp: between_def)
qed

lemma findall_num_lang: "t \<in> set (findall_num s) \<Longrightarrow> t \<in> lang num_pattern"
proof (induction s rule: findall_num_induct)
  case 1
  then show ?case by simp
next
  case (2 c cs)
  show ?case
  proof (cases "match_num (c # cs)")
    case None
    with 2 show ?thesis by simp
  next
    case (Some rest)
    from match_num_sound[OF Some] obtain w where
      w: "c # cs = w @ rest" "w \<in> lang num_pattern" "between (c # cs) rest = w" by blast
    from "2.prems" Some have "t = between (c # cs) rest \<or> t \<in> set (findall_num rest)" by simp
    then show ?thesis using w "2.IH"(2)[OF Some] by auto
  qed
qed

lemma match_num_complete: "w \<in> lang num_pattern \<Longrightarrow> match_num (w @ v) \<noteq> None"
  unfolding match_num_def using bt_complete[of w num_pattern Some v] by simp

lemma findall_num_complete:
  assumes "w \<in> lang num_pattern"
  shows "findall_num (u @ w @ v) \<noteq> []"
proof (induction u)
  case Nil
  from assms have "w \<noteq> []" by (rule num_pattern_nonempty)
  then obtain c cs where c: "w @ v = c # cs" by (cases w) auto
  from match_num_complete[OF assms, of v] obtain rest where "match_num (w @ v) = Some rest"
    by auto
  then show ?case using c by simp
next
  case (Cons c u)
  then show ?case by (cases "match_num (c # u @ w @ v)") simp_all
qed

lemma findall_num_occurs:
  "findall_num x \<noteq> [] \<Longrightarrow> \<exists>y w z. x = y @ w @ z \<and> w \<in> lang num_pattern"
proof (induction x rule: findall_num_induct)
  case 1
  then show ?case by simp
next
  case (2 c cs)
  show ?case
  proof (cases "match_num (c # cs)")
    case None
    with 2 obtain y w z where "cs = y @ w @ z" "w \<in> lang num_pattern" by auto
    then have "c # cs = (c # y) @ w @ z" by simp
    then show ?thesis using \<open>w \<in> lang num_pattern\<close> by blast
  next
    case (Some rest)
    from match_num_sound[OF Some] obtain w where
      "c # cs = w @ rest" "w \<in> lang num_pattern" by blast
    then have "c # cs = [] @ w @ rest" by simp
    then show ?thesis using \<open>w \<in> lang num_pattern\<close> by blast
  qed
qed

lemma findall_num_two:
  "2 \<le> length (findall_num s) \<Longrightarrow>
   \<exists>u w x. s = u @ w @ x \<and> w \<in> lang num_pattern \<and> findall_num x \<noteq> []"
proof (induction s rule: findall_num_induct)
  case 1
  then show ?case by simp
next
  case (2 c cs)
  show ?case
  proof (cases "match_num (c # cs)")
    case None
    with 2 obtain u w x where "cs = u @ w @ x" "w \<in> lang num_pattern" "findall_num x \<noteq> []"
      by auto
    then have "c # cs = (c # u) @ w @ x" by simp
    then show ?thesis using \<open>w \<in> lang num_pattern\<close> \<open>findall_num x \<noteq> []\<close> by blast
  next
    case (Some rest)
    from match_num_sound[OF Some] obtain w where
      w: "c # cs = w @ rest" "w \<in> lang num_pattern" by blast
    from "2.prems" Some have "findall_num rest \<noteq> []" by auto
    moreover have "c # cs = [] @ w @ rest" using w by simp
    ultimately show ?thesis using w(2) by blast
  qed
qed

section \<open>Dated lines\<close>

lemma lang_spaces: "w \<in> lang (Star (Sym is_space)) \<Longrightarrow> \<forall>c \<in> set w. is_space c"
proof -
  assume "w \<in> lang (Star (Sym is_space))"
  then have "w \<in> star (lang (Sym is_space))" by simp
  then show ?thesis by (rule star_all) auto
qed

lemma lang_plus_spaces: "w \<in> lang (Plus (Sym is_space)) \<Longrightarrow> \<forall>c \<in> set w. is_space c"
proof -
  assume "w \<in> lang (Plus (Sym is_space))"
  then obtain x y where "w = x # y" "is_space x" "y \<in> lang (Star (Sym is_space))"
    by (auto simp: Plus_def)
  then show ?thesis using lang_spaces[of y] by auto
qed

lemma lang_two_digits:
  "w \<in> lang (Rep 2 (Sym is_digit)) \<Longrightarrow> \<exists>a b. w = [a, b] \<and> is_digit a \<and> is_digit b"
  by (auto simp: Rep_2)

lemma date_prefix_dated:
  assumes "date_prefix s = Some rest"
  shows "dated s rest"
proof -
  from assms obtain w1 s1 where 1: "s = w1 @ s1" "w1 \<in> lang (Star (Sym is_space))"
    and k1: "bt (Rep 2 (Sym is_digit)) s1 (\<lambda>s2.
       bt (Plus (Sym is_space)) s2 (\<lambda>s3.
       bt (Rep 2 (Sym is_digit)) s3 (\<lambda>s4.
       bt (Plus (Sym is_space)) s4 (\<lambda>s5.
       bt (Rep 2 (Sym is_digit)) s5 Some)))) = Some rest"
    unfolding date_prefix_def by (rule bt_soundE)
  from k1 obtain d1 s2 where 2: "s1 = d1 @ s2" "d1 \<in> lang (Rep 2 (Sym is_digit))"
    and k2: "bt (Plus (Sym is_space)) s2 (\<lambda>s3.
       bt (Rep 2 (Sym is_digit)) s3 (\<lambda>s4.
       bt (Plus (Sym is_space)) s4 (\<lambda>s5.
       bt (Rep 2 (Sym is_digit)) s5 Some))) = Some rest"
    by (rule bt_soundE)
  from k2 obtain w2 s3 where 3: "s2 = w2 @ s3" "w2 \<in> lang (Plus (Sym is_space))"
    and k3: "bt (Rep 2 (Sym is_digit)) s3 (\<lambda>s4.
       bt (Plus (Sym is_space)) s4 (\<lambda>s5.
       bt (Rep 2 (Sym is_digit)) s5 Some)) = Some rest"
    by (rule bt_soundE)
  from k3 obtain d2 s4 where 4: "s3 = d2 @ s4" "d2 \<in> lang (Rep 2 (Sym is_digit))"
    and k4: "bt (Plus (Sym is_space)) s4 (\<lambda>s5.
       bt (Rep 2 (Sym is_digit)) s5 Some) = Some rest"
    by (rule bt_soundE)
  from k4 obtain w3 s5 where 5: "s4 = w3 @ s5" "w3 \<in> lang (Plus (Sym is_space))"
    and k5: "bt (Rep 2 (Sym is_digit)) s5 Some = Some rest"
    by (rule bt_soundE)
  from k5 obtain d3 s6 where 6: "s5 = d3 @ s6" "d3 \<in> lang (Rep 2 (Sym is_digit))"
    and k6: "Some s6 = Some rest"
    by (rule bt_soundE)
  from lang_two_digits[OF 2(2)] obtain a b where d1: "d1 = [a, b]" "is_digit a" "is_digit b" by blast
  from lang_two_digits[OF 4(2)] obtain c d where d2: "d2 = [c, d]" "is_digit c" "is_digit d" by blast
  from lang_two_digits[OF 6(2)] obtain e f where d3: "d3 = [e, f]" "is_digit e" "is_digit f" by blast
  have "s = w1 @ a # b # w2 @ c # d # w3 @ e # f # rest"
    using 1 2 3 4 5 6 k6 d1 d2 d3 by simp
  then show ?thesis
    unfolding dated_def
    using lang_spaces[OF 1(2)] lang_plus_spaces[OF 3(2)] lang_plus_spaces[OF 5(2)] d1 d2 d3
    by blast
qed

lemma lookahead_amount_lang:
  assumes "lookahead_amount s"
  shows "\<exists>sp w v. s = sp @ w @ v \<and> w \<in> lang num_pattern"
proof -
  from assms obtain x where
    "bt (Seq (Rep 4 (Sym is_space)) (Seq (Star (Sym is_space)) num_pattern)) s Some = Some x"
    unfolding lookahead_amount_def by auto
  then obtain y s' where y: "s = y @ s'"
    "y \<in> lang (Seq (Rep 4 (Sym is_space)) (Seq (Star (Sym is_space)) num_pattern))"
    by (rule bt_soundE)
  from y(2) obtain p r where p: "y = p @ r" "r \<in> lang (Seq (Star (Sym is_space)) num_pattern)"
    using lang_SeqE by blast
  from p(2) obtain q w where q: "r = q @ w" "w \<in> lang num_pattern"
    using lang_SeqE by blast
  have "s = (p @ q) @ w @ s'" using y p q by simp
  then show ?thesis using q(2) by blast
qed

lemma trans_match_dated:
  assumes "trans_match s = Some g"
  shows "\<exists>m w v. dated s (m @ w @ v) \<and> w \<in> lang num_pattern"
proof -
  let ?k10 = "\<lambda>s1 s2 s3 s4 s5 s6 s7 s8 s9 s10.
       if lookahead_amount s10
       then Some \<lparr>g_day = between s1 s2, g_month = between s3 s4, g_year = between s5 s6,
                   g_code = between s7 s8, g_desc = between s9 s10, g_rest = s10\<rparr>
       else None"
  from assms obtain w1 s1 where 1: "s = w1 @ s1" "w1 \<in> lang (Star (Sym is_space))"
    and k1: "bt (Rep 2 (Sym is_digit)) s1 (\<lambda>s2.
     bt (Plus (Sym is_space)) s2 (\<lambda>s3.
     bt (Rep 2 (Sym is_digit)) s3 (\<lambda>s4.
     bt (Plus (Sym is_space)) s4 (\<lambda>s5.
     bt (Rep 2 (Sym is_digit)) s5 (\<lambda>s6.
     bt (Plus (Sym is_space)) s6 (\<lambda>s7.
     bt (Opt (Rep 4 (Sym is_digit))) s7 (\<lambda>s8.
     bt (Plus (Sym is_space)) s8 (\<lambda>s9.
     bt (LPlus (Sym not_newline)) s9 (\<lambda>s10. ?k10 s1 s2 s3 s4 s5 s6 s7 s8 s9 s10))))))))) = Some g"
    unfolding trans_match_def by (rule bt_soundE)
  from k1 obtain d1 s2 where 2: "s1 = d1 @ s2" "d1 \<in> lang (Rep 2 (Sym is_digit))"
    and k2: "bt (Plus (Sym is_space)) s2 (\<lambda>s3.
     bt (Rep 2 (Sym is_digit)) s3 (\<lambda>s4.
     bt (Plus (Sym is_space)) s4 (\<lambda>s5.
     bt (Rep 2 (Sym is_digit)) s5 (\<lambda>s6.
     bt (Plus (Sym is_space)) s6 (\<lambda>s7.
     bt (Opt (Rep 4 (Sym is_digit))) s7 (\<lambda>s8.
     bt (Plus (Sym is_space)) s8 (\<lambda>s9.
     bt (LPlus (Sym not_newline)) s9 (\<lambda>s10. ?k10 s1 s2 s3 s4 s5 s6 s7 s8 s9 s10)))))))) = Some g"
    by (rule bt_soundE)
  from k2 obtain w2 s3 where 3: "s2 = w2 @ s3" "w2 \<in> lang (Plus (Sym is_space))"
    and k3: "bt (Rep 2 (Sym is_digit)) s3 (\<lambda>s4.
     bt (Plus (Sym is_space)) s4 (\<lambda>s5.
     bt (Rep 2 (Sym is_digit)) s5 (\<lambda>s6.
     bt (Plus (Sym is_space)) s6 (\<lambda>s7.
     bt (Opt (Rep 4 (Sym is_digit))) s7 (\<lambda>s8.
     bt (Plus (Sym is_space)) s8 (\<lambda>s9.
     bt (LPlus (Sym not_newline)) s9 (\<lambda>s10. ?k10 s1 s2 s3 s4 s5 s6 s7 s8 s9 s10))))))) = Some g"
    by (rule bt_soundE)
  from k3 obtain d2 s4 where 4: "s3 = d2 @ s4" "d2 \<in> lang (Rep 2 (Sym is_digit))"
    and k4: "bt (Plus (Sym is_space)) s4 (\<lambda>s5.
     bt (Rep 2 (Sym is_digit)) s5 (\<lambda>s6.
     bt (Plus (Sym is_space)) s6 (\<lambda>s7.
     bt (Opt (Rep 4 (Sym is_digit))) s7 (\<lambda>s8.
     bt (Plus (Sym is_space)) s8 (\<lambda>s9.
     bt (LPlus (Sym not_newline)) s9 (\<lambda>s10. ?k10 s1 s2 s3 s4 s5 s6 s7 s8 s9 s10)))))) = Some g"
    by (rule bt_soundE)
  from k4 obtain w3 s5 where 5: "s4 = w3 @ s5" "w3 \<in> lang (Plus (Sym is_space))"
    and k5: "bt (Rep 2 (Sym is_digit)) s5 (\<lambda>s6.
     bt (Plus (Sym is_space)) s6 (\<lambda>s7.
     bt (Opt (Rep 4 (Sym is_digit))) s7 (\<lambda>s8.
     bt (Plus (Sym is_space)) s8 (\<lambda>s9.
     bt (LPlus (Sym not_newline)) s9 (\<lambda>s10. ?k10 s1 s2 s3 s4 s5 s6 s7 s8 s9 s10))))) = Some g"
    by (rule bt_soundE)
  from k5 obtain d3 s6 where 6: "s5 = d3 @ s6" "d3 \<in> lang (Rep 2 (Sym is_digit))"
    and k6: "bt (Plus (Sym is_space)) s6 (\<lambda>s7.
     bt (Opt (Rep 4 (Sym is_digit))) s7 (\<lambda>s8.
     bt (Plus (Sym is_space)) s8 (\<lambda>s9.
     bt (LPlus (Sym not_newline)) s9 (\<lambda>s10. ?k10 s1 s2 s3 s4 s5 s6 s7 s8 s9 s10)))) = Some g"
    by (rule bt_soundE)
  from k6 obtain w4 s7 where 7: "s6 = w4 @ s7"
    and k7: "bt (Opt (Rep 4 (Sym is_digit))) s7 (\<lambda>s8.
     bt (Plus (Sym is_space)) s8 (\<lambda>s9.
     bt (LPlus (Sym not_newline)) s9 (\<lambda>s10. ?k10 s1 s2 s3 s4 s5 s6 s7 s8 s9 s10))) = Some g"
    by (rule bt_soundE)
  from k7 obtain cd s8 where 8: "s7 = cd @ s8"
    and k8: "bt (Plus (Sym is_space)) s8 (\<lambda>s9.
     bt (LPlus (Sym not_newline)) s9 (\<lambda>s10. ?k10 s1 s2 s3 s4 s5 s6 s7 s8 s9 s10)) = Some g"
    by (rule bt_soundE)
  from k8 obtain w5 s9 where 9: "s8 = w5 @ s9"
    and k9: "bt (LPlus (Sym not_newline)) s9 (\<lambda>s10. ?k10 s1 s2 s3 s4 s5 s6 s7 s8 s9 s10) = Some g"
    by (rule bt_soundE)
  from k9 obtain ds s10 where 10: "s9 = ds @ s10"
    and k10: "?k10 s1 s2 s3 s4 s5 s6 s7 s8 s9 s10 = Some g"
    by (rule bt_soundE)
  from k10 have "lookahead_amount s10" by (simp split: if_splits)
  from lookahead_amount_lang[OF this] obtain sp w v where la: "s10 = sp @ w @ v" "w \<in> lang num_pattern"
    by blast
  from lang_two_digits[OF 2(2)] obtain a b where d1: "d1 = [a, b]" "is_digit a" "is_digit b" by blast
  from lang_two_digits[OF 4(2)] obtain c d where d2: "d2 = [c, d]" "is_digit c" "is_digit d" by blast
  from lang_two_digits[OF 6(2)] obtain e f where d3: "d3 = [e, f]" "is_digit e" "is_digit f" by blast
  have "s = w1 @ a # b # w2 @ c # d # w3 @ e # f # ((w4 @ cd @ w5 @ ds @ sp) @ w @ v)"
    using 1 2 3 4 5 6 7 8 9 10 la d1 d2 d3 by simp
  then have "dated s ((w4 @ cd @ w5 @ ds @ sp) @ w @ v)"
    unfolding dated_def
    using lang_spaces[OF 1(2)] lang_plus_spaces[OF 3(2)] lang_plus_spaces[OF 5(2)] d1 d2 d3
    by blast
  then show ?thesis using la(2) by blast
qed

lemma spaces_digit_unique:
  assumes "\<forall>c \<in> set w. is_space c" "\<forall>c \<in> set w'. is_space c" "is_digit a" "is_digit a'"
    and "w @ a # r = w' @ a' # r'"
  shows "w = w' \<and> a = a' \<and> r = r'"
proof -
  have na: "\<not> is_space a" "\<not> is_space a'" using assms(3,4) digit_not_punct by auto
  have "takeWhile is_space (w @ a # r) = w" using assms(1) na by (simp add: takeWhile_append2)
  moreover have "takeWhile is_space (w' @ a' # r') = w'"
    using assms(2) na by (simp add: takeWhile_append2)
  ultimately have "w = w'" using assms(5) by simp
  then show ?thesis using assms(5) by simp
qed

lemma dated_unique:
  assumes "dated s r" "dated s r'"
  shows "r = r'"
proof -
  from assms(1) obtain w1 a b w2 c d w3 e f where
    s: "s = w1 @ a # b # w2 @ c # d # w3 @ e # f # r" and
    w: "\<forall>x \<in> set w1. is_space x" "\<forall>x \<in> set w2. is_space x" "\<forall>x \<in> set w3. is_space x" and
    dg: "is_digit a" "is_digit c" "is_digit e"
    unfolding dated_def by blast
  from assms(2) obtain w1' a' b' w2' c' d' w3' e' f' where
    s': "s = w1' @ a' # b' # w2' @ c' # d' # w3' @ e' # f' # r'" and
    w': "\<forall>x \<in> set w1'. is_space x" "\<forall>x \<in> set w2'. is_space x" "\<forall>x \<in> set w3'. is_space x" and
    dg': "is_digit a'" "is_digit c'" "is_digit e'"
    unfolding dated_def by blast
  from s s' have e1: "w1 @ a # (b # w2 @ c # d # w3 @ e # f # r)
      = w1' @ a' # (b' # w2' @ c' # d' # w3' @ e' # f' # r')" by simp
  from spaces_digit_unique[OF w(1) w'(1) dg(1) dg'(1) e1]
  have e2: "w2 @ c # (d # w3 @ e # f # r) = w2' @ c' # (d' # w3' @ e' # f' # r')" by simp
  from spaces_digit_unique[OF w(2) w'(2) dg(2) dg'(2) e2]
  have e3: "w3 @ e # (f # r) = w3' @ e' # (f' # r')" by simp
  from spaces_digit_unique[OF w(3) w'(3) dg(3) dg'(3) e3]
  show ?thesis by simp
qed

lemma dated_no_comma:
  assumes "dated s rest"
  shows "\<exists>p. s = p @ rest \<and> CHR '','' \<notin> set p"
proof -
  from assms obtain w1 a b w2 c d w3 e f where
    s: "s = w1 @ a # b # w2 @ c # d # w3 @ e # f # rest" and
    w: "\<forall>x \<in> set w1. is_space x" "\<forall>x \<in> set w2. is_space x" "\<forall>x \<in> set w3. is_space x" and
    dg: "is_digit a" "is_digit b" "is_digit c" "is_digit d" "is_digit e" "is_digit f"
    unfolding dated_def by blast
  have sp: "\<not> is_space CHR '',''" by (simp add: is_space_def)
  have "s = (w1 @ a # b # w2 @ c # d # w3 @ [e, f]) @ rest" using s by simp
  moreover have "CHR '','' \<notin> set (w1 @ a # b # w2 @ c # d # w3 @ [e, f])"
    using w dg sp digit_not_punct by auto
  ultimately show ?thesis by blast
qed

lemma after_prefix:
  assumes "p @ rest = pre @ c # post" "c \<notin> set p"
  shows "\<exists>m. rest = m @ c # post"
proof -
  from assms(1) consider z where "p = pre @ z" "z @ rest = c # post"
    | z where "pre = p @ z" "rest = z @ c # post"
    by (auto simp: append_eq_append_conv2)
  then show ?thesis
  proof cases
    case 1
    then show ?thesis using assms(2) by (cases z) auto
  next
    case 2
    then show ?thesis by blast
  qed
qed

lemma dated_few_tokens:
  assumes "dated s rest" "findall_num rest = []"
  shows "length (findall_num s) < 2"
proof (rule ccontr)
  assume "\<not> length (findall_num s) < 2"
  then have "2 \<le> length (findall_num s)" by simp
  from findall_num_two[OF this] obtain u w x where
    s: "s = u @ w @ x" and w: "w \<in> lang num_pattern" and x: "findall_num x \<noteq> []" by blast
  from num_pattern_shape[OF w] obtain neg ip a b where
    w': "w = (if neg then ''-'' else []) @ ip @ '','' @ [a, b]" by blast
  from dated_no_comma[OF assms(1)] obtain p where p: "s = p @ rest" "CHR '','' \<notin> set p" by blast
  have "p @ rest = (u @ (if neg then ''-'' else []) @ ip) @ CHR '','' # ([a, b] @ x)"
    using p(1) s w' by simp
  from after_prefix[OF this p(2)] obtain m where m: "rest = m @ CHR '','' # ([a, b] @ x)" by blast
  from findall_num_occurs[OF x] obtain y w2 z where
    x': "x = y @ w2 @ z" "w2 \<in> lang num_pattern" by blast
  have "rest = (m @ CHR '','' # [a, b] @ y) @ w2 @ z" using m x' by simp
  then have "findall_num rest \<noteq> []" using findall_num_complete[OF x'(2)] by metis
  with assms(2) show False by simp
qed

lemma dated_no_trans:
  assumes "dated s rest" "findall_num rest = []"
  shows "trans_match s = None"
proof (rule ccontr)
  assume "trans_match s \<noteq> None"
  then obtain g where "trans_match s = Some g" by auto
  from trans_match_dated[OF this] obtain m w v where
    d: "dated s (m @ w @ v)" and w: "w \<in> lang num_pattern" by blast
  from dated_unique[OF assms(1) d] have "rest = m @ w @ v" .
  then have "findall_num rest \<noteq> []" using findall_num_complete[OF w] by metis
  with assms(2) show False by simp
qed

section \<open>Records of the classifier\<close>

lemma amount_ok: "w \<in> lang num_pattern \<Longrightarrow> \<exists>v. amount w = Inr v"
  using amount_token by blast

lemma special_ok:
  assumes "a \<in> lang num_pattern" "b \<in> lang num_pattern"
  shows "\<exists>uyu usd. amount a = Inr uyu \<and> amount b = Inr usd
           \<and> special fe de ti a b =
               Inr (Some \<lparr>Fecha = fe, Codigo = [], Descripcion = de, Cuotas = [],
                           Monto_UYU = uyu, Monto_USD = Some usd, Tipo = ti\<rparr>)"
proof -
  from amount_ok[OF assms(1)] obtain uyu where "amount a = Inr uyu" by blast
  moreover from amount_ok[OF assms(2)] obtain usd where "amount b = Inr usd" by blast
  ultimately show ?thesis by (simp add: special_def bind_err_def)
qed

lemma two_tokens:
  assumes "2 \<le> length (findall_num s)"
  shows "findall_num s ! (length (findall_num s) - 2) \<in> lang num_pattern"
    and "last (findall_num s) \<in> lang num_pattern"
    and "findall_num s ! 0 \<in> lang num_pattern"
    and "findall_num s ! 1 \<in> lang num_pattern"
proof -
  have ne: "findall_num s \<noteq> []" using assms by (cases "findall_num s") simp_all
  show "findall_num s ! (length (findall_num s) - 2) \<in> lang num_pattern"
    using assms by (intro findall_num_lang[of _ s] nth_mem) linarith
  show "last (findall_num s) \<in> lang num_pattern"
    using ne by (intro findall_num_lang[of _ s] last_in_set)
  show "findall_num s ! 0 \<in> lang num_pattern"
    using assms by (intro findall_num_lang[of _ s] nth_mem) linarith
  show "findall_num s ! 1 \<in> lang num_pattern"
    using assms by (intro findall_num_lang[of _ s] nth_mem) linarith
qed

lemma special_emitted:
  assumes "a \<in> lang num_pattern" "b \<in> lang num_pattern"
  shows "emitted ti (special fe de ti a b)"
proof -
  from special_ok[OF assms, of fe de ti] obtain uyu usd where
    "amount a = Inr uyu"
    "special fe de ti a b =
       Inr (Some \<lparr>Fecha = fe, Codigo = [], Descripcion = de, Cuotas = [],
                   Monto_UYU = uyu, Monto_USD = Some usd, Tipo = ti\<rparr>)"
    by blast
  then show ?thesis unfolding emitted_def using assms(1) by auto
qed

lemma saldo_anterior_emitted: "saldo_anterior line = Some r \<Longrightarrow> emitted ''Saldo'' r"
  using special_emitted two_tokens
  by (auto simp: saldo_anterior_def Let_def split: if_splits)

lemma pagos_emitted: "pagos line = Some r \<Longrightarrow> emitted ''Pago'' r"
  using special_emitted two_tokens
  by (auto simp: pagos_def Let_def split: if_splits option.splits)

lemma seguro_emitted: "seguro line = Some r \<Longrightarrow> emitted ''Cargo'' r"
  using special_emitted two_tokens
  by (auto simp: seguro_def Let_def split: if_splits)

lemma saldo_contado_emitted: "saldo_contado line = Some r \<Longrightarrow> emitted ''Saldo'' r"
  using special_emitted two_tokens
  by (auto simp: saldo_contado_def Let_def split: if_splits)

lemma transaction_emitted: "transaction g = Inr None \<or> emitted Transaccion (transaction g)"
proof -
  let ?am = "findall_num (strip (g_rest g))"
  show ?thesis
  proof (cases "?am = []")
    case True
    then show ?thesis by (simp add: transaction_def Let_def)
  next
    case False
    then have l: "last ?am \<in> lang num_pattern"
      by (intro findall_num_lang[of _ "strip (g_rest g)"] last_in_set)
    from amount_ok[OF l] obtain uyu where uyu: "amount (last ?am) = Inr uyu" by blast
    show ?thesis
    proof (cases "1 < length ?am")
      case True
      then have "?am ! (length ?am - 2) \<in> lang num_pattern"
        by (intro findall_num_lang[of _ "strip (g_rest g)"] nth_mem) linarith
      from amount_ok[OF this] obtain usd where "amount (?am ! (length ?am - 2)) = Inr usd"
        by blast
      then have "emitted Transaccion (transaction g)"
        unfolding emitted_def using False True uyu l
        by (auto simp: transaction_def Let_def bind_err_def)
      then show ?thesis ..
    next
      case F: False
      have "emitted Transaccion (transaction g)"
        unfolding emitted_def using False F uyu l
        by (auto simp: transaction_def Let_def bind_err_def)
      then show ?thesis ..
    qed
  qed
qed

lemma parse_line_emitted:
  "parse_line l = Inr None
   \<or> emitted ''Saldo'' (parse_line l) \<or> emitted ''Pago'' (parse_line l)
   \<or> emitted ''Cargo'' (parse_line l) \<or> emitted Transaccion (parse_line l)"
proof -
  let ?line = "rstrip l"
  show ?thesis
  proof (cases "length ?line < 20")
    case True
    then show ?thesis by (simp add: parse_line_def)
  next
    case long: False
    show ?thesis
    proof (cases "saldo_anterior ?line")
      case (Some r)
      then show ?thesis using long saldo_anterior_emitted[OF Some] by (simp add: parse_line_def)
    next
      case n1: None
      show ?thesis
      proof (cases "pagos ?line")
        case (Some r)
        then show ?thesis using long n1 pagos_emitted[OF Some] by (simp add: parse_line_def)
      next
        case n2: None
        show ?thesis
        proof (cases "seguro ?line")
          case (Some r)
          then show ?thesis using long n1 n2 seguro_emitted[OF Some] by (simp add: parse_line_def)
        next
          case n3: None
          show ?thesis
          proof (cases "saldo_contado ?line")
            case (Some r)
            then show ?thesis
              using long n1 n2 n3 saldo_contado_emitted[OF Some] by (simp add: parse_line_def)
          next
            case n4: None
            show ?thesis
            proof (cases "trans_match ?line")
              case None
              then show ?thesis using long n1 n2 n3 n4 by (simp add: parse_line_def)
            next
              case (Some g)
              then show ?thesis
                using long n1 n2 n3 n4 transaction_emitted[of g] by (auto simp: parse_line_def)
            qed
          qed
        qed
      qed
    qed
  qed
qed

lemma few_tokens_no_special:
  assumes "length (findall_num line) < 2"
  shows "saldo_anterior line = None" "pagos line = None" "seguro line = None"
    "saldo_contado line = None"
  using assms
  by (auto simp: saldo_anterior_def pagos_def seguro_def saldo_contado_def Let_def
      split: option.splits)

lemma Transaccion_nonempty: "Transaccion \<noteq> []"
  by (simp add: Transaccion_def)

text \<open>
  C7. The classifier never raises. Every record it returns has a kind that is not empty and
  a local amount that is the value of a numeric token. A line that starts with the date
  prefix of a transaction and has no numeric token after that prefix gives no record.
\<close>

theorem parse_line_record_complete:
  "(\<exists>r. parse_line l = Inr r)
   \<and> (parse_line l = Inr (Some t) \<longrightarrow>
        Tipo t \<noteq> [] \<and> (\<exists>tok. tok \<in> lang num_pattern \<and> amount tok = Inr (Monto_UYU t)))
   \<and> (date_prefix (rstrip l) = Some rest \<and> findall_num rest = [] \<longrightarrow> parse_line l = Inr None)"
proof -
  have a: "\<exists>r. parse_line l = Inr r"
    using parse_line_emitted[of l] by (auto simp: emitted_def)
  have b: "parse_line l = Inr (Some t) \<longrightarrow>
        Tipo t \<noteq> [] \<and> (\<exists>tok. tok \<in> lang num_pattern \<and> amount tok = Inr (Monto_UYU t))"
    using parse_line_emitted[of l] Transaccion_nonempty by (auto simp: emitted_def)
  have c: "date_prefix (rstrip l) = Some rest \<and> findall_num rest = [] \<longrightarrow> parse_line l = Inr None"
  proof
    assume h: "date_prefix (rstrip l) = Some rest \<and> findall_num rest = []"
    then have d: "dated (rstrip l) rest" by (simp add: date_prefix_dated)
    from dated_few_tokens[OF d] h have "length (findall_num (rstrip l)) < 2" by simp
    from few_tokens_no_special[OF this] dated_no_trans[OF d] h
    show "parse_line l = Inr None" by (simp add: parse_line_def Let_def)
  qed
  from a b c show ?thesis by blast
qed

lemma fullmatch_lang:
  assumes "bt r s (\<lambda>r. if r = [] then Some r else None) = Some x"
  shows "s \<in> lang r"
proof -
  from assms obtain w s' where "s = w @ s'" "w \<in> lang r"
    "(if s' = [] then Some s' else None) = Some x"
    by (rule bt_soundE)
  then show ?thesis by (auto split: if_splits)
qed

lemma sample_token: "''1.234,56'' \<in> lang num_pattern"
proof -
  have "bt num_pattern ''1.234,56'' (\<lambda>r. if r = [] then Some r else None) = Some []"
    by code_simp
  then show ?thesis by (rule fullmatch_lang)
qed

lemmas amount_eval = amount_def normalize_def py_float_def replace_chr_def remove_chr_def
  digits_val_def digit_val_def is_digit_def

text \<open>
  C8. A token of the numeric pattern is an optional minus sign, digits and points, a comma
  and two digits; its normal form drops the points and has a point for the comma, and its
  amount is the decimal number so written. So \<open>1.234,56\<close> is 1234.56, \<open>-12,00\<close> is -12 and
  \<open>5,00\<close> is 5.
\<close>

theorem amount_normalization:
  "(tok \<in> lang num_pattern \<longrightarrow>
      (\<exists>neg ip a b.
          tok = (if neg then ''-'' else []) @ ip @ '','' @ [a, b]
        \<and> normalize tok = (if neg then ''-'' else []) @ remove_chr CHR ''.'' ip @ ''.'' @ [a, b]
        \<and> amount tok = Inr ((if neg then - 1 else 1)
              * (of_nat (digits_val (remove_chr CHR ''.'' ip)) + of_nat (digits_val [a, b]) / 100))))
   \<and> amount ''1.234,56'' = Inr (123456 / 100)
   \<and> amount ''-12,00'' = Inr (- 12)
   \<and> amount ''5,00'' = Inr 5"
proof -
  have 1: "amount ''1.234,56'' = Inr (123456 / 100)" by (simp add: amount_eval)
  have 2: "amount ''-12,00'' = Inr (- 12)" by (simp add: amount_eval)
  have 3: "amount ''5,00'' = Inr 5" by (simp add: amount_eval)
  from 1 2 3 amount_token[of tok] show ?thesis by blast
qed

theorem amount_normalization_witness:
  "''1.234,56'' \<in> lang num_pattern
   \<and> (\<exists>neg ip a b.
          ''1.234,56'' = (if neg then ''-'' else []) @ ip @ '','' @ [a, b]
        \<and> normalize ''1.234,56'' = (if neg then ''-'' else []) @ remove_chr CHR ''.'' ip @ ''.'' @ [a, b]
        \<and> amount ''1.234,56'' = Inr ((if neg then - 1 else 1)
              * (of_nat (digits_val (remove_chr CHR ''.'' ip)) + of_nat (digits_val [a, b]) / 100)))
   \<and> normalize ''1.234,56'' = ''1234.56''
   \<and> amount ''1.234,56'' = Inr (123456 / 100)"
proof -
  have n: "normalize ''1.234,56'' = ''1234.56''"
    by (simp add: normalize_def replace_chr_def remove_chr_def)
  from amount_normalization[of "''1.234,56''"] sample_token n show ?thesis by blast
qed

lemma sample_line_record:
  "parse_line ''01 02 24  AB    1,00'' =
     Inr (Some \<lparr>Fecha = ''01/02/24'', Codigo = [], Descripcion = ''AB'', Cuotas = [],
                 Monto_UYU = 1, Monto_USD = None, Tipo = Transaccion\<rparr>)"
  by (simp add: line_eval)

lemma sample_line_no_amount:
  "rstrip ''15 03 24 1234    NETFLIX.COM          3/6  '' =
     ''15 03 24 1234    NETFLIX.COM          3/6''"
  "date_prefix ''15 03 24 1234    NETFLIX.COM          3/6'' =
     Some '' 1234    NETFLIX.COM          3/6''"
  "findall_num '' 1234    NETFLIX.COM          3/6'' = []"
  by code_simp+

theorem parse_line_record_complete_witness:
  "parse_line ''01 02 24  AB    1,00'' =
     Inr (Some \<lparr>Fecha = ''01/02/24'', Codigo = [], Descripcion = ''AB'', Cuotas = [],
                 Monto_UYU = 1, Monto_USD = None, Tipo = Transaccion\<rparr>)
   \<and> Transaccion \<noteq> []
   \<and> (\<exists>tok. tok \<in> lang num_pattern \<and> amount tok = Inr 1)
   \<and> date_prefix (rstrip ''15 03 24 1234    NETFLIX.COM          3/6  '') =
       Some '' 1234    NETFLIX.COM          3/6''
   \<and> findall_num '' 1234    NETFLIX.COM          3/6'' = []
   \<and> parse_line ''15 03 24 1234    NETFLIX.COM          3/6  '' = Inr None"
  using parse_line_record_complete[of "''01 02 24  AB    1,00''"
      "\<lparr>Fecha = ''01/02/24'', Codigo = [], Descripcion = ''AB'', Cuotas = [],
        Monto_UYU = 1, Monto_USD = None, Tipo = Transaccion\<rparr>"]
    parse_line_record_complete[of "''15 03 24 1234    NETFLIX.COM          3/6  ''" _
      "'' 1234    NETFLIX.COM          3/6''"]
    sample_line_record sample_line_no_amount
  by simp

section \<open>The order of the rules\<close>

lemma fall_through_kind:
  assumes "r = (case saldo_anterior line of Some r \<Rightarrow> r | None \<Rightarrow>
                 case seguro line of Some r \<Rightarrow> r | None \<Rightarrow>
                 case saldo_contado line of Some r \<Rightarrow> r | None \<Rightarrow>
                 case trans_match line of Some g \<Rightarrow> transaction g | None \<Rightarrow> Inr None)"
    and "r = Inr (Some t)"
  shows "Tipo t \<in> {''Saldo'', ''Cargo'', Transaccion}"
proof (cases "saldo_anterior line")
  case (Some x)
  with assms saldo_anterior_emitted[OF Some] show ?thesis by (auto simp: emitted_def)
next
  case n1: None
  show ?thesis
  proof (cases "seguro line")
    case (Some x)
    with assms n1 seguro_emitted[OF Some] show ?thesis by (auto simp: emitted_def)
  next
    case n2: None
    show ?thesis
    proof (cases "saldo_contado line")
      case (Some x)
      with assms n1 n2 saldo_contado_emitted[OF Some] show ?thesis by (auto simp: emitted_def)
    next
      case n3: None
      show ?thesis
      proof (cases "trans_match line")
        case None
        with assms n1 n2 n3 show ?thesis by simp
      next
        case (Some g)
        with assms n1 n2 n3 transaction_emitted[of g] show ?thesis by (auto simp: emitted_def)
      qed
    qed
  qed
qed

lemma Transaccion_not_Pago: "Transaccion \<noteq> ''Pago''"
  by (simp add: Transaccion_def)

text \<open>
  C3 (amended). A line of at least 20 characters that contains \<open>PAGOS\<close> but has no date
  pattern, or fewer than two numeric tokens, gives no payment record; control leaves the
  block and the line is classified by the other rules: unless the previous-balance rule,
  tried before, returned, the result is that of the insurance rule, the final-balance rule
  and the transaction pattern, in that order, and with fewer than two tokens it is that of
  the transaction pattern alone.
\<close>

theorem pagos_falls_through:
  assumes "20 \<le> length (rstrip l)"
    and "contains ''PAGOS'' (rstrip l)"
    and "date_search (rstrip l) = None \<or> length (findall_num (rstrip l)) < 2"
  shows "pagos (rstrip l) = None
    \<and> parse_line l =
        (case saldo_anterior (rstrip l) of Some r \<Rightarrow> r | None \<Rightarrow>
         case seguro (rstrip l) of Some r \<Rightarrow> r | None \<Rightarrow>
         case saldo_contado (rstrip l) of Some r \<Rightarrow> r | None \<Rightarrow>
         case trans_match (rstrip l) of Some g \<Rightarrow> transaction g | None \<Rightarrow> Inr None)
    \<and> (\<forall>t. parse_line l = Inr (Some t) \<longrightarrow> Tipo t \<noteq> ''Pago'')
    \<and> (length (findall_num (rstrip l)) < 2 \<longrightarrow>
          parse_line l =
            (case trans_match (rstrip l) of Some g \<Rightarrow> transaction g | None \<Rightarrow> Inr None))"
proof -
  have p: "pagos (rstrip l) = None"
    using assms(3) by (auto simp: pagos_def Let_def split: option.splits)
  have e: "parse_line l =
        (case saldo_anterior (rstrip l) of Some r \<Rightarrow> r | None \<Rightarrow>
         case seguro (rstrip l) of Some r \<Rightarrow> r | None \<Rightarrow>
         case saldo_contado (rstrip l) of Some r \<Rightarrow> r | None \<Rightarrow>
         case trans_match (rstrip l) of Some g \<Rightarrow> transaction g | None \<Rightarrow> Inr None)"
    using assms(1) p by (simp add: parse_line_def Let_def split: option.splits)
  have k: "\<forall>t. parse_line l = Inr (Some t) \<longrightarrow> Tipo t \<noteq> ''Pago''"
  proof (intro allI impI)
    fix t assume "parse_line l = Inr (Some t)"
    from fall_through_kind[OF e this] show "Tipo t \<noteq> ''Pago''"
      using Transaccion_not_Pago by auto
  qed
  have f: "length (findall_num (rstrip l)) < 2 \<longrightarrow>
          parse_line l =
            (case trans_match (rstrip l) of Some g \<Rightarrow> transaction g | None \<Rightarrow> Inr None)"
  proof
    assume "length (findall_num (rstrip l)) < 2"
    from few_tokens_no_special[OF this] e
    show "parse_line l =
            (case trans_match (rstrip l) of Some g \<Rightarrow> transaction g | None \<Rightarrow> Inr None)"
      by simp
  qed
  from p e k f show ?thesis by blast
qed

text \<open>
  C5 (amended). A line of at least 20 characters that contains \<open>SALDO CONTADO\<close>, has at
  least two numeric tokens and none of the markers tried before it is the final balance, with
  its last two tokens as amounts, also when it begins with a date and matches the transaction
  pattern.
\<close>

theorem saldo_contado_priority:
  assumes "20 \<le> length (rstrip l)"
    and "contains ''SALDO CONTADO'' (rstrip l)"
    and "2 \<le> length (findall_num (rstrip l))"
    and "\<not> contains ''SALDO DEL ESTADO DE CUENTA ANTERIOR'' (rstrip l)"
    and "\<not> contains ''PAGOS'' (rstrip l)"
    and "\<not> contains ''SEGURO DE VIDA SOBRE SALDO'' (rstrip l)"
  shows "\<exists>uyu usd.
      amount (findall_num (rstrip l) ! (length (findall_num (rstrip l)) - 2)) = Inr uyu
    \<and> amount (last (findall_num (rstrip l))) = Inr usd
    \<and> parse_line l =
        Inr (Some \<lparr>Fecha = [], Codigo = [], Descripcion = ''SALDO FINAL'', Cuotas = [],
                    Monto_UYU = uyu, Monto_USD = Some usd, Tipo = ''Saldo''\<rparr>)"
proof -
  let ?line = "rstrip l"
  let ?am = "findall_num ?line"
  from special_ok[OF two_tokens(1)[OF assms(3)] two_tokens(2)[OF assms(3)],
      of "[]" "''SALDO FINAL''" "''Saldo''"]
  obtain uyu usd where a: "amount (?am ! (length ?am - 2)) = Inr uyu"
    "amount (last ?am) = Inr usd"
    "special [] ''SALDO FINAL'' ''Saldo'' (?am ! (length ?am - 2)) (last ?am) =
       Inr (Some \<lparr>Fecha = [], Codigo = [], Descripcion = ''SALDO FINAL'', Cuotas = [],
                   Monto_UYU = uyu, Monto_USD = Some usd, Tipo = ''Saldo''\<rparr>)"
    by blast
  have "parse_line l =
        Inr (Some \<lparr>Fecha = [], Codigo = [], Descripcion = ''SALDO FINAL'', Cuotas = [],
                    Monto_UYU = uyu, Monto_USD = Some usd, Tipo = ''Saldo''\<rparr>)"
    using assms a(3)
    by (simp add: parse_line_def Let_def saldo_anterior_def pagos_def seguro_def saldo_contado_def)
  with a show ?thesis by blast
qed

lemma pagos_line:
  "rstrip ''15 03 24 1234    PAGOS          1.500,00'' = ''15 03 24 1234    PAGOS          1.500,00''"
  "contains ''PAGOS'' ''15 03 24 1234    PAGOS          1.500,00''"
  "findall_num ''15 03 24 1234    PAGOS          1.500,00'' = [''1.500,00'']"
  by code_simp+

lemma pagos_line_record:
  "parse_line ''15 03 24 1234    PAGOS          1.500,00'' =
     Inr (Some \<lparr>Fecha = ''15/03/24'', Codigo = ''1234'', Descripcion = ''PAGOS'', Cuotas = [],
                 Monto_UYU = 1500, Monto_USD = None, Tipo = Transaccion\<rparr>)"
  by (simp add: line_eval)

theorem pagos_no_match_counterexample:
  "20 \<le> length (rstrip ''15 03 24 1234    PAGOS          1.500,00'')
   \<and> contains ''PAGOS'' (rstrip ''15 03 24 1234    PAGOS          1.500,00'')
   \<and> length (findall_num (rstrip ''15 03 24 1234    PAGOS          1.500,00'')) < 2
   \<and> parse_line ''15 03 24 1234    PAGOS          1.500,00'' =
       Inr (Some \<lparr>Fecha = ''15/03/24'', Codigo = ''1234'', Descripcion = ''PAGOS'', Cuotas = [],
                   Monto_UYU = 1500, Monto_USD = None, Tipo = Transaccion\<rparr>)
   \<and> parse_line ''15 03 24 1234    PAGOS          1.500,00'' \<noteq> Inr None"
  using pagos_line pagos_line_record by simp


theorem pagos_falls_through_witness:
  "20 \<le> length (rstrip ''15 03 24 1234    PAGOS          1.500,00'')
   \<and> contains ''PAGOS'' (rstrip ''15 03 24 1234    PAGOS          1.500,00'')
   \<and> length (findall_num (rstrip ''15 03 24 1234    PAGOS          1.500,00'')) < 2
   \<and> pagos (rstrip ''15 03 24 1234    PAGOS          1.500,00'') = None
   \<and> parse_line ''15 03 24 1234    PAGOS          1.500,00'' =
       (case trans_match (rstrip ''15 03 24 1234    PAGOS          1.500,00'') of
          Some g \<Rightarrow> transaction g | None \<Rightarrow> Inr None)
   \<and> parse_line ''15 03 24 1234    PAGOS          1.500,00'' =
       Inr (Some \<lparr>Fecha = ''15/03/24'', Codigo = ''1234'', Descripcion = ''PAGOS'', Cuotas = [],
                   Monto_UYU = 1500, Monto_USD = None, Tipo = Transaccion\<rparr>)
   \<and> Transaccion \<noteq> ''Pago''"
proof -
  have h: "20 \<le> length (rstrip ''15 03 24 1234    PAGOS          1.500,00'')"
    "contains ''PAGOS'' (rstrip ''15 03 24 1234    PAGOS          1.500,00'')"
    "length (findall_num (rstrip ''15 03 24 1234    PAGOS          1.500,00'')) < 2"
    using pagos_line by simp_all
  from pagos_falls_through[OF h(1,2)] h(3)
  have "pagos (rstrip ''15 03 24 1234    PAGOS          1.500,00'') = None"
    "parse_line ''15 03 24 1234    PAGOS          1.500,00'' =
       (case trans_match (rstrip ''15 03 24 1234    PAGOS          1.500,00'') of
          Some g \<Rightarrow> transaction g | None \<Rightarrow> Inr None)"
    "\<forall>t. parse_line ''15 03 24 1234    PAGOS          1.500,00'' = Inr (Some t)
         \<longrightarrow> Tipo t \<noteq> ''Pago''"
    by blast+
  with h pagos_line_record show ?thesis by auto
qed

lemma contado_line:
  "rstrip ''15 03 24 1234    SALDO CONTADO    1.500,00'' =
     ''15 03 24 1234    SALDO CONTADO    1.500,00''"
  "contains ''SALDO CONTADO'' ''15 03 24 1234    SALDO CONTADO    1.500,00''"
  "date_prefix ''15 03 24 1234    SALDO CONTADO    1.500,00'' =
     Some '' 1234    SALDO CONTADO    1.500,00''"
  by code_simp+

lemma contado_line_record:
  "parse_line ''15 03 24 1234    SALDO CONTADO    1.500,00'' =
     Inr (Some \<lparr>Fecha = ''15/03/24'', Codigo = ''1234'', Descripcion = ''SALDO CONTADO'',
                 Cuotas = [], Monto_UYU = 1500, Monto_USD = None, Tipo = Transaccion\<rparr>)"
  by (simp add: line_eval)

lemma contado_pagos_line:
  "rstrip ''15 03 24   PAGOS  SALDO CONTADO    1.500,00    3,00'' =
     ''15 03 24   PAGOS  SALDO CONTADO    1.500,00    3,00''"
  "contains ''SALDO CONTADO'' ''15 03 24   PAGOS  SALDO CONTADO    1.500,00    3,00''"
  "date_prefix ''15 03 24   PAGOS  SALDO CONTADO    1.500,00    3,00'' =
     Some ''   PAGOS  SALDO CONTADO    1.500,00    3,00''"
  by code_simp+

lemma contado_pagos_line_record:
  "parse_line ''15 03 24   PAGOS  SALDO CONTADO    1.500,00    3,00'' =
     Inr (Some \<lparr>Fecha = ''15/03/24'', Codigo = [], Descripcion = ''PAGOS'',
                 Cuotas = [], Monto_UYU = 1500, Monto_USD = Some 3, Tipo = ''Pago''\<rparr>)"
  by (simp add: line_eval)

theorem saldo_contado_counterexample:
  "20 \<le> length (rstrip ''15 03 24 1234    SALDO CONTADO    1.500,00'')
   \<and> contains ''SALDO CONTADO'' (rstrip ''15 03 24 1234    SALDO CONTADO    1.500,00'')
   \<and> date_prefix (rstrip ''15 03 24 1234    SALDO CONTADO    1.500,00'') =
       Some '' 1234    SALDO CONTADO    1.500,00''
   \<and> parse_line ''15 03 24 1234    SALDO CONTADO    1.500,00'' =
       Inr (Some \<lparr>Fecha = ''15/03/24'', Codigo = ''1234'', Descripcion = ''SALDO CONTADO'',
                   Cuotas = [], Monto_UYU = 1500, Monto_USD = None, Tipo = Transaccion\<rparr>)
   \<and> 20 \<le> length (rstrip ''15 03 24   PAGOS  SALDO CONTADO    1.500,00    3,00'')
   \<and> contains ''SALDO CONTADO'' (rstrip ''15 03 24   PAGOS  SALDO CONTADO    1.500,00    3,00'')
   \<and> date_prefix (rstrip ''15 03 24   PAGOS  SALDO CONTADO    1.500,00    3,00'') =
       Some ''   PAGOS  SALDO CONTADO    1.500,00    3,00''
   \<and> parse_line ''15 03 24   PAGOS  SALDO CONTADO    1.500,00    3,00'' =
       Inr (Some \<lparr>Fecha = ''15/03/24'', Codigo = [], Descripcion = ''PAGOS'',
                   Cuotas = [], Monto_UYU = 1500, Monto_USD = Some 3, Tipo = ''Pago''\<rparr>)"
  using contado_line contado_line_record contado_pagos_line contado_pagos_line_record
  by simp

lemma contado_two_line:
  "rstrip ''15 03 24 1234    SALDO CONTADO    1.500,00    3,00'' =
     ''15 03 24 1234    SALDO CONTADO    1.500,00    3,00''"
  "contains ''SALDO CONTADO'' ''15 03 24 1234    SALDO CONTADO    1.500,00    3,00''"
  "findall_num ''15 03 24 1234    SALDO CONTADO    1.500,00    3,00'' = [''1.500,00'', ''3,00'']"
  "\<not> contains ''SALDO DEL ESTADO DE CUENTA ANTERIOR''
       ''15 03 24 1234    SALDO CONTADO    1.500,00    3,00''"
  "\<not> contains ''PAGOS'' ''15 03 24 1234    SALDO CONTADO    1.500,00    3,00''"
  "\<not> contains ''SEGURO DE VIDA SOBRE SALDO''
       ''15 03 24 1234    SALDO CONTADO    1.500,00    3,00''"
  "trans_match ''15 03 24 1234    SALDO CONTADO    1.500,00    3,00'' =
     Some \<lparr>g_day = ''15'', g_month = ''03'', g_year = ''24'', g_code = ''1234'',
            g_desc = ''SALDO CONTADO'', g_rest = ''    1.500,00    3,00''\<rparr>"
  by code_simp+

lemma contado_two_amounts:
  "amount ''1.500,00'' = Inr 1500" "amount ''3,00'' = Inr 3"
  by (simp_all add: amount_eval)

theorem saldo_contado_priority_witness:
  "20 \<le> length (rstrip ''15 03 24 1234    SALDO CONTADO    1.500,00    3,00'')
   \<and> contains ''SALDO CONTADO'' (rstrip ''15 03 24 1234    SALDO CONTADO    1.500,00    3,00'')
   \<and> 2 \<le> length (findall_num (rstrip ''15 03 24 1234    SALDO CONTADO    1.500,00    3,00''))
   \<and> trans_match (rstrip ''15 03 24 1234    SALDO CONTADO    1.500,00    3,00'') =
       Some \<lparr>g_day = ''15'', g_month = ''03'', g_year = ''24'', g_code = ''1234'',
              g_desc = ''SALDO CONTADO'', g_rest = ''    1.500,00    3,00''\<rparr>
   \<and> parse_line ''15 03 24 1234    SALDO CONTADO    1.500,00    3,00'' =
       Inr (Some \<lparr>Fecha = [], Codigo = [], Descripcion = ''SALDO FINAL'', Cuotas = [],
                   Monto_UYU = 1500, Monto_USD = Some 3, Tipo = ''Saldo''\<rparr>)"
proof -
  let ?l = "''15 03 24 1234    SALDO CONTADO    1.500,00    3,00''"
  have h: "20 \<le> length (rstrip ?l)" "contains ''SALDO CONTADO'' (rstrip ?l)"
    "2 \<le> length (findall_num (rstrip ?l))"
    "\<not> contains ''SALDO DEL ESTADO DE CUENTA ANTERIOR'' (rstrip ?l)"
    "\<not> contains ''PAGOS'' (rstrip ?l)"
    "\<not> contains ''SEGURO DE VIDA SOBRE SALDO'' (rstrip ?l)"
    using contado_two_line by simp_all
  from saldo_contado_priority[OF h] obtain uyu usd where
    a: "amount (findall_num (rstrip ?l) ! (length (findall_num (rstrip ?l)) - 2)) = Inr uyu"
      "amount (last (findall_num (rstrip ?l))) = Inr usd"
      "parse_line ?l =
        Inr (Some \<lparr>Fecha = [], Codigo = [], Descripcion = ''SALDO FINAL'', Cuotas = [],
                    Monto_UYU = uyu, Monto_USD = Some usd, Tipo = ''Saldo''\<rparr>)"
    by blast
  from a(1,2) have "uyu = 1500" "usd = 3"
    using contado_two_line(1,3) contado_two_amounts by simp_all
  with a(3) h contado_two_line(1,7) show ?thesis by simp
qed

section \<open>Which columns are coerced\<close>

lemma filter_label_distinct:
  "distinct (map fst F) \<Longrightarrow> (l, c) \<in> set F \<Longrightarrow> filter (\<lambda>(l', c'). l' = l) F = [(l, c)]"
proof (induction F)
  case Nil
  then show ?case by simp
next
  case (Cons x F)
  obtain l' c' where x: "x = (l', c')" by (cases x)
  show ?case
  proof (cases "l' = l")
    case True
    with Cons.prems x have "c' = c" by (auto simp: image_iff)
    moreover have "filter (\<lambda>(l', c'). l' = l) F = []"
      using Cons.prems x True by (auto simp: filter_empty_conv image_iff)
    ultimately show ?thesis using x True by simp
  next
    case False
    with Cons x show ?thesis by auto
  qed
qed

lemma coerce_col_distinct:
  assumes "distinct (map fst F)" "(col, ObjectCol cells) \<in> set F"
  shows "coerce_col f col F =
           Inr (map (\<lambda>(l, c). if l = col then (l, coerced f c) else (l, c)) F)"
proof -
  have 1: "filter (\<lambda>(l, c). l = col) F = [(col, ObjectCol cells)]"
    using filter_label_distinct[OF assms] .
  have 2: "map (\<lambda>(l', c). if l' = col
                               then (l', NumericCol (map (coerce_cell f) cells))
                               else (l', c)) F
         = map (\<lambda>(l, c). if l = col then (l, coerced f c) else (l, c)) F"
  proof (rule map_cong[OF refl])
    fix x assume xin: "x \<in> set F"
    obtain l c where x: "x = (l, c)" by (cases x)
    show "(case x of (l', c) \<Rightarrow> if l' = col
                               then (l', NumericCol (map (coerce_cell f) cells))
                               else (l', c))
        = (case x of (l, c) \<Rightarrow> if l = col then (l, coerced f c) else (l, c))"
    proof (cases "l = col")
      case True
      with xin x assms have "c = ObjectCol cells"
        using filter_label_distinct[OF assms(1), of col c] 1 by auto
      with True x show ?thesis by (simp add: coerced_def)
    next
      case False
      with x show ?thesis by simp
    qed
  qed
  show ?thesis unfolding coerce_col_def 1 using 2 by simp
qed

lemma coerce_fold:
  assumes "distinct (map fst F)" "distinct cols"
    and "\<forall>l \<in> set cols. \<exists>cells. (l, ObjectCol cells) \<in> set F"
  shows "foldl (\<lambda>acc col. bind_err acc (coerce_col f col)) (Inr F) cols =
           Inr (map (\<lambda>(l, c). if l \<in> set cols then (l, coerced f c) else (l, c)) F)"
  using assms
proof (induction cols arbitrary: F)
  case Nil
  then show ?case by simp
next
  case (Cons col cols)
  from Cons.prems(3) obtain cells where cells: "(col, ObjectCol cells) \<in> set F" by auto
  let ?F' = "map (\<lambda>(l, c). if l = col then (l, coerced f c) else (l, c)) F"
  have step: "coerce_col f col F = Inr ?F'"
    using coerce_col_distinct[OF Cons.prems(1) cells] .
  have fst': "map fst ?F' = map fst F" by (induction F) auto
  have d': "distinct (map fst ?F')" unfolding fst' using Cons.prems(1) .
  have dc: "distinct cols" "col \<notin> set cols" using Cons.prems(2) by auto
  have o': "\<forall>l \<in> set cols. \<exists>cells. (l, ObjectCol cells) \<in> set ?F'"
  proof
    fix l assume l: "l \<in> set cols"
    with Cons.prems(3) obtain cs where cs: "(l, ObjectCol cs) \<in> set F" by auto
    from l dc have "l \<noteq> col" by auto
    with cs have "(l, ObjectCol cs) \<in> set ?F'" by (force simp: image_iff)
    then show "\<exists>cells. (l, ObjectCol cells) \<in> set ?F'" ..
  qed
  have "foldl (\<lambda>acc col. bind_err acc (coerce_col f col)) (Inr F) (col # cols)
      = foldl (\<lambda>acc col. bind_err acc (coerce_col f col)) (Inr ?F') cols"
    using step by (simp add: bind_err_def)
  also have "\<dots> = Inr (map (\<lambda>(l, c). if l \<in> set cols then (l, coerced f c) else (l, c)) ?F')"
    using Cons.IH[OF d' dc(1) o'] .
  also have "map (\<lambda>(l, c). if l \<in> set cols then (l, coerced f c) else (l, c)) ?F'
      = map (\<lambda>(l, c). if l \<in> set (col # cols) then (l, coerced f c) else (l, c)) F"
    using dc(2) by (auto simp: coerced_def split: column.splits)
  finally show ?case .
qed

lemma numeric_cols_mem:
  assumes "distinct (map fst df)" "(l, cells) \<in> set df"
  shows "l \<in> set (numeric_cols df) \<longleftrightarrow> list_ex cell_matches cells"
proof
  assume "l \<in> set (numeric_cols df)"
  then obtain cells' where c: "(l, cells') \<in> set df" "list_ex cell_matches cells'"
    by (auto simp: numeric_cols_def)
  from assms c(1) have "cells' = cells" by (meson eq_key_imp_eq_value)
  with c(2) show "list_ex cell_matches cells" by simp
next
  assume "list_ex cell_matches cells"
  with assms(2) show "l \<in> set (numeric_cols df)"
    by (force simp: numeric_cols_def image_iff)
qed

text \<open>
  C2 (amended). In a frame whose labels are distinct, a column is coerced to numbers exactly
  when at least one of its cells matches the numeric pattern; its cells that do not parse
  become missing values. A column is left as text only when none of its cells matches.
\<close>

theorem coerce_when_any_matches:
  assumes "distinct (map fst df)"
  shows "coerce_numeric_cols f df =
           Inr (map (\<lambda>(l, cells).
                  (l, if list_ex cell_matches cells
                      then NumericCol (map (coerce_cell f) cells)
                      else ObjectCol cells)) df)
    \<and> clean_df f df =
           Inr (dropna_thresh2 (map (\<lambda>(l, cells).
                  (l, if list_ex cell_matches cells
                      then NumericCol (map (coerce_cell f) cells)
                      else ObjectCol cells)) df))"
proof -
  let ?F = "map (\<lambda>(l, cells). (l, ObjectCol cells)) df"
  have fst: "map fst ?F = map fst df" by (induction df) auto
  have d: "distinct (map fst ?F)" unfolding fst using assms .
  have dc: "distinct (numeric_cols df)"
    unfolding numeric_cols_def using assms by (rule distinct_map_filter)
  have o: "\<forall>l \<in> set (numeric_cols df). \<exists>cells. (l, ObjectCol cells) \<in> set ?F"
    by (force simp: numeric_cols_def image_iff)
  have "coerce_numeric_cols f df =
      Inr (map (\<lambda>(l, c). if l \<in> set (numeric_cols df) then (l, coerced f c) else (l, c)) ?F)"
    unfolding coerce_numeric_cols_def using coerce_fold[OF d dc o] .
  also have "map (\<lambda>(l, c). if l \<in> set (numeric_cols df) then (l, coerced f c) else (l, c)) ?F
      = map (\<lambda>(l, cells).
                  (l, if list_ex cell_matches cells
                      then NumericCol (map (coerce_cell f) cells)
                      else ObjectCol cells)) df"
    using numeric_cols_mem[OF assms] by (auto simp: coerced_def)
  finally have 1: "coerce_numeric_cols f df =
           Inr (map (\<lambda>(l, cells).
                  (l, if list_ex cell_matches cells
                      then NumericCol (map (coerce_cell f) cells)
                      else ObjectCol cells)) df)" .
  then show ?thesis by (simp add: clean_df_def bind_err_def)
qed

lemma mixed_column_cells:
  "\<not> cell_matches (Some ''abc'')" "cell_matches (Some ''12'')"
  "\<not> cell_matches (Some ''x'')" "\<not> cell_matches (Some ''y'')"
  by (simp_all add: cell_matches_def numeric_like_def is_digit_def is_chr_def is_sep_def
      Opt_def Plus_def)

lemma mixed_column_values:
  "coerce_cell py_float (Some ''12'') = Some 12" "coerce_cell py_float (Some ''abc'') = None"
  by (simp_all add: coerce_cell_def py_float_def replace_chr_def remove_chr_def
      digits_val_def digit_val_def is_digit_def)

theorem coerce_all_match_counterexample:
  "\<not> cell_matches (Some ''abc'')
   \<and> coerce_numeric_cols py_float
       [(''Monto'', [Some ''12'', Some ''abc'']), (''Detalle'', [Some ''x'', Some ''y''])] =
     Inr [(''Monto'', NumericCol [Some 12, None]),
          (''Detalle'', ObjectCol [Some ''x'', Some ''y''])]
   \<and> clean_df py_float
       [(''Monto'', [Some ''12'', Some ''abc'']), (''Detalle'', [Some ''x'', Some ''y''])] =
     Inr [(''Monto'', NumericCol [Some 12]), (''Detalle'', ObjectCol [Some ''x''])]"
  by (simp add: frame_eval)

theorem coerce_when_any_matches_witness:
  "distinct (map fst [(''Monto'', [Some ''12'', Some ''abc'']), (''Detalle'', [Some ''x'', Some ''y''])])
   \<and> cell_matches (Some ''12'')
   \<and> coerce_numeric_cols py_float
       [(''Monto'', [Some ''12'', Some ''abc'']), (''Detalle'', [Some ''x'', Some ''y''])] =
     Inr [(''Monto'', NumericCol [Some 12, None]),
          (''Detalle'', ObjectCol [Some ''x'', Some ''y''])]"
proof -
  have d: "distinct (map fst [(''Monto'', [Some ''12'', Some ''abc'']),
                               (''Detalle'', [Some ''x'', Some ''y''])])"
    by simp
  from coerce_when_any_matches[OF d, of py_float] mixed_column_cells mixed_column_values d
  show ?thesis by simp
qed

section \<open>The threshold of the text stage\<close>

text \<open>
  C6. When the table stage gives no result and reading the CSV of the text parser back gives
  one row for each record: with exactly three records the text stage gives no result and
  the conversion asks the completion service; with exactly four records the CSV of the text
  parser is returned and the completion service is not asked.
\<close>

theorem text_stage_threshold:
  assumes "validate e file_path = Inr ()"
    and "open_pdf e file_path = Inr pages"
    and "table_stage e pages = Inr None"
    and "transactions_of (build_full_text pages) = Inr ts"
    and "records_to_csv e (map row_of ts) \<noteq> []"
    and "read_csv_len e (records_to_csv e (map row_of ts)) = Inr (length ts)"
  shows "(length ts = 3 \<longrightarrow>
            text_stage e (build_full_text pages) = Inr None
          \<and> pdf_to_csv e file_path =
              ([TableStage, TextStage, LlmStage],
               case parse_with_llm e (build_full_text pages) of
                 Inl err \<Rightarrow> None | Inr answer \<Rightarrow> Some answer))
       \<and> (length ts = 4 \<longrightarrow>
            text_stage e (build_full_text pages) = Inr (Some (records_to_csv e (map row_of ts)))
          \<and> pdf_to_csv e file_path =
              ([TableStage, TextStage], Some (records_to_csv e (map row_of ts))))"
proof -
  have csv: "3 \<le> length ts \<Longrightarrow>
      parse_text_to_csv e (build_full_text pages) = Inr (Some (records_to_csv e (map row_of ts)))"
    using assms(4) by (simp add: parse_text_to_csv_def bind_err_def)
  have t3: "length ts = 3 \<Longrightarrow> text_stage e (build_full_text pages) = Inr None"
    using csv assms(5,6) by (simp add: text_stage_def bind_err_def)
  have t4: "length ts = 4 \<Longrightarrow>
      text_stage e (build_full_text pages) = Inr (Some (records_to_csv e (map row_of ts)))"
    using csv assms(5,6) by (simp add: text_stage_def bind_err_def)
  have p3: "length ts = 3 \<Longrightarrow> pdf_to_csv e file_path =
              ([TableStage, TextStage, LlmStage],
               case parse_with_llm e (build_full_text pages) of
                 Inl err \<Rightarrow> None | Inr answer \<Rightarrow> Some answer)"
    using t3 assms(1,2,3) by (simp add: pdf_to_csv_def Let_def split: sum.splits)
  have p4: "length ts = 4 \<Longrightarrow> pdf_to_csv e file_path =
              ([TableStage, TextStage], Some (records_to_csv e (map row_of ts)))"
    using t4 assms(1,2,3) by (simp add: pdf_to_csv_def Let_def)
  from t3 t4 p3 p4 show ?thesis by blast
qed

lemma extracto_is_pdf: "endswith (lower ''extracto.PDF'') ''.pdf''"
  by code_simp

lemma sample_validate: "validate (sample_ext pages) ''extracto.PDF'' = Inr ()"
  using extracto_is_pdf by (simp add: validate_def sample_ext_def)

lemma sample_no_tables:
  "table_stage (sample_ext ps) [page_one, page_two] = Inr None"
  "table_stage (sample_ext ps) [page_one, page_two, page_three] = Inr None"
  by (simp_all add: table_stage_def accepted_tables_def page_one_def page_two_def page_three_def)

lemma sample_texts:
  "build_full_text [page_one, page_two] =
     ''01 02 24  AB    1,00'' @ [CHR 0x0A] @ ''03 04 24  CD    2,00'' @ [CHR 0x0A]
       @ ''05 06 24  EF    3,00''"
  "build_full_text [page_one, page_two, page_three] =
     ''01 02 24  AB    1,00'' @ [CHR 0x0A] @ ''03 04 24  CD    2,00'' @ [CHR 0x0A]
       @ ''05 06 24  EF    3,00'' @ [CHR 0x0A] @ ''07 08 24  GH    4,00''"
  by (simp_all add: build_full_text_def text_or_newline_def page_one_def page_two_def
      page_three_def)

lemma sample_lines:
  "filter (\<lambda>l. strip l \<noteq> [])
     (split_nl (''01 02 24  AB    1,00'' @ [CHR 0x0A] @ ''03 04 24  CD    2,00'' @ [CHR 0x0A]
       @ ''05 06 24  EF    3,00'')) =
   [''01 02 24  AB    1,00'', ''03 04 24  CD    2,00'', ''05 06 24  EF    3,00'']"
  "filter (\<lambda>l. strip l \<noteq> [])
     (split_nl (''01 02 24  AB    1,00'' @ [CHR 0x0A] @ ''03 04 24  CD    2,00'' @ [CHR 0x0A]
       @ ''05 06 24  EF    3,00'' @ [CHR 0x0A] @ ''07 08 24  GH    4,00'')) =
   [''01 02 24  AB    1,00'', ''03 04 24  CD    2,00'', ''05 06 24  EF    3,00'',
    ''07 08 24  GH    4,00'']"
  by code_simp+

lemma sample_records:
  "parse_line ''03 04 24  CD    2,00'' = Inr (Some (sample_txn ''03/04/24'' ''CD'' 2))"
  "parse_line ''05 06 24  EF    3,00'' = Inr (Some (sample_txn ''05/06/24'' ''EF'' 3))"
  "parse_line ''07 08 24  GH    4,00'' = Inr (Some (sample_txn ''07/08/24'' ''GH'' 4))"
  by (simp_all add: line_eval sample_txn_def)

lemma sample_transactions:
  "transactions_of (build_full_text [page_one, page_two]) =
     Inr [sample_txn ''01/02/24'' ''AB'' 1, sample_txn ''03/04/24'' ''CD'' 2,
          sample_txn ''05/06/24'' ''EF'' 3]"
  "transactions_of (build_full_text [page_one, page_two, page_three]) =
     Inr [sample_txn ''01/02/24'' ''AB'' 1, sample_txn ''03/04/24'' ''CD'' 2,
          sample_txn ''05/06/24'' ''EF'' 3, sample_txn ''07/08/24'' ''GH'' 4]"
  unfolding transactions_of_def sample_texts sample_lines
  using sample_line_record sample_records
  by (simp_all add: bind_err_def sample_txn_def)

lemma sample_answer: "parse_with_llm (sample_ext ps) text = Inr ''answer''"
proof -
  have "strip ''answer'' = ''answer''" by code_simp
  then show ?thesis by (simp add: parse_with_llm_def sample_ext_def bind_err_def)
qed

theorem text_stage_threshold_witness:
  "transactions_of (build_full_text [page_one, page_two]) =
     Inr [sample_txn ''01/02/24'' ''AB'' 1, sample_txn ''03/04/24'' ''CD'' 2,
          sample_txn ''05/06/24'' ''EF'' 3]
   \<and> pdf_to_csv (sample_ext [page_one, page_two]) ''extracto.PDF'' =
       ([TableStage, TextStage, LlmStage], Some ''answer'')
   \<and> transactions_of (build_full_text [page_one, page_two, page_three]) =
     Inr [sample_txn ''01/02/24'' ''AB'' 1, sample_txn ''03/04/24'' ''CD'' 2,
          sample_txn ''05/06/24'' ''EF'' 3, sample_txn ''07/08/24'' ''GH'' 4]
   \<and> pdf_to_csv (sample_ext [page_one, page_two, page_three]) ''extracto.PDF'' =
       ([TableStage, TextStage],
        Some (sample_csv (map row_of
          [sample_txn ''01/02/24'' ''AB'' 1, sample_txn ''03/04/24'' ''CD'' 2,
           sample_txn ''05/06/24'' ''EF'' 3, sample_txn ''07/08/24'' ''GH'' 4])))"
proof -
  let ?e3 = "sample_ext [page_one, page_two]"
  let ?e4 = "sample_ext [page_one, page_two, page_three]"
  let ?t3 = "[sample_txn ''01/02/24'' ''AB'' 1, sample_txn ''03/04/24'' ''CD'' 2,
          sample_txn ''05/06/24'' ''EF'' 3]"
  let ?t4 = "[sample_txn ''01/02/24'' ''AB'' 1, sample_txn ''03/04/24'' ''CD'' 2,
          sample_txn ''05/06/24'' ''EF'' 3, sample_txn ''07/08/24'' ''GH'' 4]"
  have o3: "open_pdf ?e3 ''extracto.PDF'' = Inr [page_one, page_two]"
    and o4: "open_pdf ?e4 ''extracto.PDF'' = Inr [page_one, page_two, page_three]"
    by (simp_all add: sample_ext_def)
  have c3: "records_to_csv ?e3 (map row_of ?t3) \<noteq> []"
    and c4: "records_to_csv ?e4 (map row_of ?t4) \<noteq> []"
    by (simp_all add: sample_ext_def sample_csv_def)
  have r3: "read_csv_len ?e3 (records_to_csv ?e3 (map row_of ?t3)) = Inr (length ?t3)"
    and r4: "read_csv_len ?e4 (records_to_csv ?e4 (map row_of ?t4)) = Inr (length ?t4)"
    by (simp_all add: sample_ext_def sample_csv_def sample_csv_len_def)
  from text_stage_threshold[OF sample_validate o3 sample_no_tables(1) sample_transactions(1) c3 r3]
  have a: "pdf_to_csv ?e3 ''extracto.PDF'' = ([TableStage, TextStage, LlmStage], Some ''answer'')"
    using sample_answer by simp
  from text_stage_threshold[OF sample_validate o4 sample_no_tables(2) sample_transactions(2) c4 r4]
  have b: "pdf_to_csv ?e4 ''extracto.PDF'' =
       ([TableStage, TextStage], Some (sample_csv (map row_of ?t4)))"
    by (simp add: sample_ext_def)
  from a b sample_transactions show ?thesis by simp
qed

end
